theory Spec2Isabelle
  imports Main "HOL-Library.Word"
begin

unbundle bit_operations_syntax

section \<open>gsinks.c: counting digraphs with one global sink\<close>

text \<open>
  A shallow embedding of \<^verbatim>\<open>gsinks.c\<close>. The file is compiled with \<^verbatim>\<open>MAXN 32\<close> and
  \<^verbatim>\<open>WORDSIZE 32\<close>, so every set is one 32-bit word and every graph has one word per
  row (\<^verbatim>\<open>m = 1\<close>); the parameter \<^verbatim>\<open>m\<close> of the C functions is therefore left out.
  The static arrays of the program are maps from the cell number to the cell, the
  globals are the fields of one record that every function takes and returns, and
  what C leaves undefined (a read below an array, a write past a buffer, an exhausted
  recursion budget of the model) is the result \<open>None\<close>.
\<close>

subsection \<open>Sets of vertices\<close>

type_synonym setword = "32 word"
type_synonym graph = "setword list"

definition MAXN :: nat where
  "MAXN = 32"

definition UNDEFINED :: int where
  "UNDEFINED = - 1"

text \<open>
  Modelled from the spec: the bitset macros and \<^verbatim>\<open>nextelement\<close> of the nauty headers,
  which are not part of the source file. Element \<open>i\<close> of a set is bit \<open>i\<close> of its word;
  \<open>nextelement s pos\<close> is the first element after position \<open>pos\<close>, and \<open>- 1\<close> when
  there is none.
\<close>

definition ISELEMENT :: "setword \<Rightarrow> nat \<Rightarrow> bool" where
  "ISELEMENT s i = bit s i"

definition ADDELEMENT :: "setword \<Rightarrow> nat \<Rightarrow> setword" where
  "ADDELEMENT s i = set_bit i s"

definition DELELEMENT :: "setword \<Rightarrow> nat \<Rightarrow> setword" where
  "DELELEMENT s i = unset_bit i s"

definition FLIPELEMENT :: "setword \<Rightarrow> nat \<Rightarrow> setword" where
  "FLIPELEMENT s i = flip_bit i s"

definition UNION :: "setword \<Rightarrow> setword \<Rightarrow> setword" where
  "UNION a b = a OR b"

definition SETDIFF :: "setword \<Rightarrow> setword \<Rightarrow> setword" where
  "SETDIFF a b = a AND NOT b"

definition EMPTYSET :: setword where
  "EMPTYSET = 0"

definition nextelement :: "setword \<Rightarrow> int \<Rightarrow> int" where
  "nextelement s pos =
     (case find (\<lambda>i. pos < int i \<and> ISELEMENT s i) [0..<32] of
        None \<Rightarrow> - 1
      | Some i \<Rightarrow> int i)"

text \<open>The elements of a set, for stating properties.\<close>

definition elems :: "setword \<Rightarrow> nat set" where
  "elems s = {i. ISELEMENT s i}"

lemma nextelement_range:
  "nextelement s pos = - 1 \<or> (pos < nextelement s pos \<and> nextelement s pos < 32)"
proof (cases "find (\<lambda>i. pos < int i \<and> ISELEMENT s i) [0..<32]")
  case None
  then show ?thesis by (simp add: nextelement_def)
next
  case (Some i)
  then have "pos < int i" and "i < 32"
    by (auto simp: find_Some_iff)
  with Some show ?thesis by (simp add: nextelement_def)
qed

subsection \<open>The globals\<close>

record sccinfo =
  sccVertices :: setword
  isLeaf :: bool
  sccSize :: nat

record vinfo =
  index :: int
  lowlink :: int
  onstack :: bool
  descendents :: setword

text \<open>
  The fields \<open>out\<close> and \<open>err\<close> are the two output streams: the graphs handed to
  \<^verbatim>\<open>writed6\<close> with their vertex counts, and the totals printed on the error stream.
  The field \<open>passed\<close> is a history variable: the colourings handed to
  \<^verbatim>\<open>filter_and_output\<close>, in order. The program model writes it and never reads it.
\<close>

record gstate =
  col :: "nat \<Rightarrow> int"
  first :: bool
  lastreject :: "nat \<Rightarrow> nat"
  lastrejok :: bool
  groupsize :: nat
  newgroupsize :: nat
  fail_level :: int
  qswitch :: bool
  dswitch :: bool
  lswitch :: bool
  totalCount :: int
  sccinfos :: "nat \<Rightarrow> sccinfo"
  currentSCC :: nat
  isFirstSCC :: bool
  vinfos :: "nat \<Rightarrow> vinfo"
  vertex_index :: int
  stack :: "nat \<Rightarrow> nat"
  stack_top :: int
  out :: "(graph \<times> nat) list"
  err :: "int list"
  passed :: "int list list"

subsection \<open>The integer stack\<close>

text \<open>
  \<^verbatim>\<open>pop\<close> reads \<^verbatim>\<open>stack[stack_top]\<close> and then decrements; \<^verbatim>\<open>push\<close> increments and then
  writes. A read at \<open>- 1\<close> and a write at \<open>MAXN\<close> are outside the array.
\<close>

definition pop :: "gstate \<Rightarrow> (nat \<times> gstate) option" where
  "pop s =
     (if stack_top s < 0 then None
      else Some (stack s (nat (stack_top s)), s\<lparr>stack_top := stack_top s - 1\<rparr>))"

definition push :: "nat \<Rightarrow> gstate \<Rightarrow> gstate option" where
  "push data s =
     (if stack_top s + 1 < 0 \<or> int MAXN \<le> stack_top s + 1 then None
      else Some (s\<lparr>stack_top := stack_top s + 1,
                   stack := (stack s)(nat (stack_top s + 1) := data)\<rparr>))"

subsection \<open>Tarjan's algorithm\<close>

text \<open>
  The \<^verbatim>\<open>do ... while (w != v)\<close> loop of \<^verbatim>\<open>strongconnect\<close> that pops one component.
  It returns the size, the accumulated descendants and the state.
\<close>

function pop_scc :: "nat \<Rightarrow> nat \<Rightarrow> setword \<Rightarrow> gstate \<Rightarrow> (nat \<times> setword \<times> gstate) option" where
  "pop_scc v sz desc s =
     (case pop s of
        None \<Rightarrow> None
      | Some (w, s1) \<Rightarrow>
          let s2 = s1\<lparr>vinfos := (vinfos s1)(w := (vinfos s1 w)\<lparr>onstack := False\<rparr>)\<rparr>;
              sz' = sz + 1;
              s3 = s2\<lparr>sccinfos := (sccinfos s2)(currentSCC s2 :=
                      (sccinfos s2 (currentSCC s2))
                        \<lparr>sccVertices := ADDELEMENT (sccVertices (sccinfos s2 (currentSCC s2))) w\<rparr>)\<rparr>;
              desc' = UNION (ADDELEMENT desc w) (descendents (vinfos s3 w))
          in if w \<noteq> v then pop_scc v sz' desc' s3 else Some (sz', desc', s3))"
  by pat_completeness auto
termination
  by (relation "measure (\<lambda>(v, sz, desc, s). nat (stack_top s + 1))")
     (auto simp: pop_def split: if_splits)

text \<open>
  The part of \<^verbatim>\<open>strongconnect\<close> after the loop over the successors: when \<open>v\<close> is a
  root, pop its component, record its size and its leaf flag, and move to the next
  record.
\<close>

definition close_scc :: "nat \<Rightarrow> gstate \<Rightarrow> gstate option" where
  "close_scc v s =
     (if lowlink (vinfos s v) = index (vinfos s v) then
        (if MAXN \<le> currentSCC s then None
         else case pop_scc v 0 EMPTYSET s of
           None \<Rightarrow> None
         | Some (sz, desc, s1) \<Rightarrow>
             let c = currentSCC s1;
                 s2 = s1\<lparr>sccinfos := (sccinfos s1)(c := (sccinfos s1 c)\<lparr>sccSize := sz\<rparr>)\<rparr>;
                 s3 = (if isFirstSCC s2 then
                         s2\<lparr>sccinfos := (sccinfos s2)(c := (sccinfos s2 c)\<lparr>isLeaf := True\<rparr>),
                            isFirstSCC := False\<rparr>
                       else if SETDIFF desc (sccVertices (sccinfos s2 c)) = 0 then
                         s2\<lparr>sccinfos := (sccinfos s2)(c := (sccinfos s2 c)\<lparr>isLeaf := True\<rparr>)\<rparr>
                       else s2)
             in Some (s3\<lparr>currentSCC := c + 1\<rparr>))
      else Some s)"

text \<open>
  \<^verbatim>\<open>strongconnect\<close> calls itself inside its loop over the successors of \<open>v\<close>. The
  first argument bounds the depth of these calls: the model returns \<open>None\<close> when it
  runs out.
\<close>

text \<open>
  \<^verbatim>\<open>vertex_index\<close> is a \<^verbatim>\<open>static int\<close>, set to 0 where it is declared and incremented
  once for every vertex that \<^verbatim>\<open>strongconnect\<close> visits; \<^verbatim>\<open>tarjan\<close> does not reset it, so it
  counts the vertices of the whole run. It is a 32-bit integer: \<open>int32\<close> is the value a
  32-bit two's complement register holds, so the increment at \<open>INT_MAX\<close> gives
  \<open>- 2147483648\<close>, as the compiled program does (the C standard leaves that increment
  undefined).
\<close>

definition INT_MAX :: int where
  "INT_MAX = 2147483647"

definition int32 :: "int \<Rightarrow> int" where
  "int32 x = (x + 2147483648) mod 4294967296 - 2147483648"

definition visit :: "nat \<Rightarrow> gstate \<Rightarrow> gstate" where
  "visit v s =
     s\<lparr>vinfos := (vinfos s)(v := (vinfos s v)\<lparr>index := vertex_index s,
                                               lowlink := vertex_index s\<rparr>),
       vertex_index := int32 (vertex_index s + 1)\<rparr>"

definition set_onstack :: "nat \<Rightarrow> gstate \<Rightarrow> gstate" where
  "set_onstack v s = s\<lparr>vinfos := (vinfos s)(v := (vinfos s v)\<lparr>onstack := True\<rparr>)\<rparr>"

definition add_descendent :: "nat \<Rightarrow> nat \<Rightarrow> gstate \<Rightarrow> gstate" where
  "add_descendent v w s =
     s\<lparr>vinfos := (vinfos s)(v := (vinfos s v)
          \<lparr>descendents := ADDELEMENT (descendents (vinfos s v)) w\<rparr>)\<rparr>"

definition lower :: "nat \<Rightarrow> int \<Rightarrow> gstate \<Rightarrow> gstate" where
  "lower v x s =
     (if lowlink (vinfos s v) > x
      then s\<lparr>vinfos := (vinfos s)(v := (vinfos s v)\<lparr>lowlink := x\<rparr>)\<rparr>
      else s)"

function strongconnect :: "nat \<Rightarrow> graph \<Rightarrow> nat \<Rightarrow> nat \<Rightarrow> gstate \<Rightarrow> gstate option"
  and strongconnect_loop :: "nat \<Rightarrow> graph \<Rightarrow> nat \<Rightarrow> int \<Rightarrow> nat \<Rightarrow> gstate \<Rightarrow> gstate option"
where
  "strongconnect fuel g v n s =
     (if fuel = 0 \<or> length g \<le> v then None
      else case push v (visit v s) of
        None \<Rightarrow> None
      | Some s1 \<Rightarrow>
          (case strongconnect_loop (fuel - 1) g v (nextelement (g ! v) UNDEFINED) n
                  (set_onstack v s1) of
             None \<Rightarrow> None
           | Some s2 \<Rightarrow> close_scc v s2))"
| "strongconnect_loop fuel g v w n s =
     (if w > UNDEFINED then
        let s1 = add_descendent v (nat w) s in
        if index (vinfos s1 (nat w)) = UNDEFINED then
          (case strongconnect fuel g (nat w) n s1 of
             None \<Rightarrow> None
           | Some s2 \<Rightarrow>
               strongconnect_loop fuel g v (nextelement (g ! v) w) n
                 (lower v (lowlink (vinfos s2 (nat w))) s2))
        else if onstack (vinfos s1 (nat w)) then
          strongconnect_loop fuel g v (nextelement (g ! v) w) n
            (lower v (index (vinfos s1 (nat w))) s1)
        else strongconnect_loop fuel g v (nextelement (g ! v) w) n s1
      else Some s)"
  by pat_completeness auto

termination
proof (relation "inv_image (less_than <*lex*> less_than)
    (\<lambda>x. case x of
       Inl (fuel, g, v, n, s) \<Rightarrow> (fuel, 0)
     | Inr (fuel, g, v, w, n, s) \<Rightarrow> (fuel, if w = - 1 then 1 else nat (33 - w) + 2))",
    goal_cases)
  case 1
  then show ?case by (intro wf_inv_image wf_lex_prod wf_less_than)
next
  case (2 fuel g v n s x2)
  then show ?case by simp
next
  case (3 fuel g v w n s x)
  then show ?case by simp
next
  case (4 fuel g v w n s x x2)
  then show ?case
    using nextelement_range [of "g ! v" w] by (auto simp: UNDEFINED_def)
next
  case (5 fuel g v w n s x)
  then show ?case
    using nextelement_range [of "g ! v" w] by (auto simp: UNDEFINED_def)
next
  case (6 fuel g v w n s x)
  then show ?case
    using nextelement_range [of "g ! v" w] by (auto simp: UNDEFINED_def)
qed

text \<open>
  \<^verbatim>\<open>tarjan\<close>: reset the stack pointer, the component counter and the first
  \<open>n\<close> cells of both tables, then visit every vertex not yet numbered. The
  closing loop of the C function only walks the recorded sets and changes nothing;
  it is left out. The recursion budget is \<open>MAXN\<close>, the number of cells there are.
\<close>

definition reset_cell :: "nat \<Rightarrow> gstate \<Rightarrow> gstate" where
  "reset_cell i s =
     s\<lparr>vinfos := (vinfos s)(i := \<lparr>index = UNDEFINED, lowlink = UNDEFINED,
                                     onstack = False, descendents = EMPTYSET\<rparr>),
       sccinfos := (sccinfos s)(i := \<lparr>sccVertices = EMPTYSET, isLeaf = False,
                                        sccSize = 0\<rparr>)\<rparr>"

fun tarjan_visit :: "graph \<Rightarrow> nat list \<Rightarrow> nat \<Rightarrow> gstate \<Rightarrow> gstate option" where
  "tarjan_visit g [] n s = Some s"
| "tarjan_visit g (v # vs) n s =
     (if index (vinfos s v) = UNDEFINED then
        (case strongconnect MAXN g v n s of
           None \<Rightarrow> None
         | Some s1 \<Rightarrow> tarjan_visit g vs n s1)
      else tarjan_visit g vs n s)"

definition tarjan :: "graph \<Rightarrow> nat \<Rightarrow> gstate \<Rightarrow> gstate option" where
  "tarjan g n s =
     tarjan_visit g [0..<n] n
       (fold reset_cell [0..<n]
          (s\<lparr>stack_top := - 1, currentSCC := 0, isFirstSCC := True\<rparr>))"

subsection \<open>The admissibility filter\<close>

text \<open>
  The \<^verbatim>\<open>do ... while (j != UNDEFINED)\<close> loop of \<^verbatim>\<open>filter_and_output\<close> over the
  members of one leaf component. Entered with \<open>j = - 1\<close> (an empty set) it reads
  \<^verbatim>\<open>col[-1]\<close>.
\<close>

function leafcoloured :: "setword \<Rightarrow> (nat \<Rightarrow> int) \<Rightarrow> int \<Rightarrow> bool option" where
  "leafcoloured scc c j =
     (if j < 0 then None
      else if c (nat j) \<noteq> 0 then Some True
      else if nextelement scc j \<noteq> UNDEFINED then leafcoloured scc c (nextelement scc j)
      else Some False)"
  by pat_completeness auto
termination
proof (relation "measure (\<lambda>(scc, c, j). nat (33 - j))", goal_cases)
  case 1
  then show ?case by simp
next
  case (2 scc c j)
  then show ?case
    using nextelement_range [of scc j] by (auto simp: UNDEFINED_def)
qed

text \<open>The loop over the recorded components: \<open>Some False\<close> is the early return.\<close>

function leaves_coloured :: "nat \<Rightarrow> (nat \<Rightarrow> int) \<Rightarrow> gstate \<Rightarrow> bool option" where
  "leaves_coloured i c s =
     (if i < currentSCC s then
        (if \<not> isLeaf (sccinfos s i) then leaves_coloured (i + 1) c s
         else case leafcoloured (sccVertices (sccinfos s i)) c
                     (nextelement (sccVertices (sccinfos s i)) UNDEFINED) of
                None \<Rightarrow> None
              | Some False \<Rightarrow> Some False
              | Some True \<Rightarrow> leaves_coloured (i + 1) c s)
      else Some True)"
  by pat_completeness auto
termination
  by (relation "measure (\<lambda>(i, c, s). currentSCC s - i)") auto

text \<open>
  The extended digraph: the \<open>n\<close> rows of \<open>g\<close>, vertex \<open>n\<close> added to the row of
  every coloured vertex, and the empty row of the new vertex \<open>n\<close>.
\<close>

definition extended_digraph :: "graph \<Rightarrow> (nat \<Rightarrow> int) \<Rightarrow> nat \<Rightarrow> graph" where
  "extended_digraph g c n =
     map (\<lambda>j. if c j \<noteq> 0 then ADDELEMENT (g ! j) n else g ! j) [0..<n] @ [EMPTYSET]"

text \<open>
  \<^verbatim>\<open>filter_and_output\<close>. The buffer \<^verbatim>\<open>gnew\<close> has \<open>MAXN\<close> rows, so building a graph of
  \<open>n + 1 > MAXN\<close> rows writes past it.
\<close>

definition filter_and_output :: "graph \<Rightarrow> (nat \<Rightarrow> int) \<Rightarrow> nat \<Rightarrow> gstate \<Rightarrow> gstate option" where
  "filter_and_output g c n s =
     (case leaves_coloured 0 c s of
        None \<Rightarrow> None
      | Some False \<Rightarrow> Some s
      | Some True \<Rightarrow>
          if dswitch s then
            (if MAXN < n + 1 then None
             else Some (s\<lparr>out := out s @ [(extended_digraph g c n, n + 1)],
                          totalCount := totalCount s + 1\<rparr>))
          else Some (s\<lparr>totalCount := totalCount s + 1\<rparr>))"

subsection \<open>The canonicity test\<close>

type_synonym perm = "nat \<Rightarrow> nat"

text \<open>\<^verbatim>\<open>ismax\<close>: test whether the colouring permuted by \<open>p\<close> is at most the colouring.\<close>

function ismax_loop :: "perm \<Rightarrow> nat \<Rightarrow> nat \<Rightarrow> nat \<Rightarrow> gstate \<Rightarrow> bool \<times> gstate" where
  "ismax_loop p n i fail s =
     (if i < n then
        let k = p i;
            fail' = (if k > fail then k else fail)
        in if col s k > col s i then (False, s\<lparr>fail_level := int fail'\<rparr>)
           else if col s k < col s i then (True, s)
           else ismax_loop p n (i + 1) fail' s
      else (True, s\<lparr>newgroupsize := newgroupsize s + 1\<rparr>))"
  by pat_completeness auto
termination
  by (relation "measure (\<lambda>(p, n, i, fail, s). n - i)") auto

definition ismax :: "perm \<Rightarrow> nat \<Rightarrow> gstate \<Rightarrow> bool \<times> gstate" where
  "ismax p n s = ismax_loop p n 0 0 s"

text \<open>\<^verbatim>\<open>testmax\<close>, the action handed to \<^verbatim>\<open>allgroup2\<close>; the first result is \<^verbatim>\<open>*abort\<close>.\<close>

definition testmax :: "perm \<Rightarrow> nat \<Rightarrow> gstate \<Rightarrow> int \<times> gstate" where
  "testmax p n s =
     (if first s then (0, s\<lparr>first := False\<rparr>)
      else case ismax p n s of
        (True, s1) \<Rightarrow> (0, s1)
      | (False, s1) \<Rightarrow>
          (1, s1\<lparr>lastreject := fold (\<lambda>i r. r(i := p i)) [0..<n] (lastreject s1),
                 lastrejok := True\<rparr>))"

text \<open>
  Modelled from the spec: \<^verbatim>\<open>allgroup2\<close> of nauty, which is not part of the source
  file. It calls the action on every element of the group, the identity first, and
  stops as soon as the action sets \<^verbatim>\<open>*abort\<close>, which it returns. The group is the
  list of its elements in the order of that enumeration.
\<close>

fun allgroup2 :: "perm list \<Rightarrow> nat \<Rightarrow> gstate \<Rightarrow> int \<times> gstate" where
  "allgroup2 [] n s = (0, s)"
| "allgroup2 (p # ps) n s =
     (case testmax p n s of
        (abort, s1) \<Rightarrow> if abort \<noteq> 0 then (abort, s1) else allgroup2 ps n s1)"

text \<open>The first half of \<^verbatim>\<open>trythisone\<close>: the value of \<^verbatim>\<open>accept\<close>.\<close>

definition fulltest :: "perm list \<Rightarrow> nat \<Rightarrow> gstate \<Rightarrow> bool \<times> gstate" where
  "fulltest grp n s =
     (case allgroup2 grp n (s\<lparr>newgroupsize := 1, first := True\<rparr>) of
        (abort, s1) \<Rightarrow> (abort = 0, s1))"

definition accept_test :: "perm list option \<Rightarrow> nat \<Rightarrow> gstate \<Rightarrow> bool \<times> gstate" where
  "accept_test grpo n s =
     (case grpo of
        None \<Rightarrow> (True, s)
      | Some grp \<Rightarrow>
          if groupsize s = 1 then (True, s)
          else if lastrejok s then
            (case ismax (lastreject s) n s of
               (False, s1) \<Rightarrow> (False, s1)
             | (True, s1) \<Rightarrow> if groupsize s1 = 2 then (True, s1) else fulltest grp n s1)
          else fulltest grp n s)"

text \<open>\<^verbatim>\<open>trythisone\<close>: the result is the level to return to.\<close>

definition trythisone :: "perm list option \<Rightarrow> graph \<Rightarrow> nat \<Rightarrow> gstate \<Rightarrow> (int \<times> gstate) option" where
  "trythisone grpo g n s =
     (case accept_test grpo n (s\<lparr>newgroupsize := 1\<rparr>) of
        (True, s1) \<Rightarrow>
          (case filter_and_output g (col s1) n
                  (s1\<lparr>passed := passed s1 @ [map (col s1) [0..<n]]\<rparr>) of
             None \<Rightarrow> None
           | Some s2 \<Rightarrow> Some (int n - 1, s2))
      | (False, s1) \<Rightarrow> Some (fail_level s1 - 1, s1))"

subsection \<open>The search\<close>

text \<open>
  \<^verbatim>\<open>scan\<close> and its \<^verbatim>\<open>for (k = min; k <= max; ++k)\<close> loop. The colour buffer has
  \<open>MAXN\<close> cells: a write at a level from \<open>MAXN\<close> on is outside it.
\<close>

function scan :: "nat \<Rightarrow> graph \<Rightarrow> (nat \<Rightarrow> int) \<Rightarrow> int \<Rightarrow> int \<Rightarrow> int \<Rightarrow> int \<Rightarrow>
    perm list option \<Rightarrow> nat \<Rightarrow> gstate \<Rightarrow> (int \<times> gstate) option"
  and scan_loop :: "int \<Rightarrow> int \<Rightarrow> nat \<Rightarrow> graph \<Rightarrow> (nat \<Rightarrow> int) \<Rightarrow> int \<Rightarrow> int \<Rightarrow> int \<Rightarrow> int \<Rightarrow>
    perm list option \<Rightarrow> nat \<Rightarrow> gstate \<Rightarrow> (int \<times> gstate) option"
where
  "scan level g prev minedges maxedges sofar numcols grpo n s =
     (if level = n then trythisone grpo g n s
      else
        let left = int n - int level - 1;
            min0 = minedges - sofar - numcols * left;
            min1 = (if min0 < 0 then 0 else min0);
            max0 = maxedges - sofar;
            max1 = (if max0 \<ge> numcols then numcols - 1 else max0);
            max2 = (if prev level \<ge> 0 \<and> col s (nat (prev level)) < max1
                    then col s (nat (prev level)) else max1)
        in scan_loop min1 max2 level g prev minedges maxedges sofar numcols grpo n s)"
| "scan_loop k mx level g prev minedges maxedges sofar numcols grpo n s =
     (if k \<le> mx then
        (if MAXN \<le> level then None
         else case scan (level + 1) g prev minedges maxedges (sofar + k) numcols grpo n
                     (s\<lparr>col := (col s)(level := k)\<rparr>) of
            None \<Rightarrow> None
          | Some (ret, s1) \<Rightarrow>
              if ret < int level then Some (ret, s1)
              else scan_loop (k + 1) mx level g prev minedges maxedges sofar numcols grpo n s1)
      else Some (int level - 1, s))"
  by pat_completeness auto
termination
  by (relation "inv_image (less_than <*lex*> less_than <*lex*> less_than)
       (\<lambda>x. case x of
          Inl (level, g, prev, minedges, maxedges, sofar, numcols, grpo, n, s) \<Rightarrow>
            (MAXN - level, 1, 0)
        | Inr (k, mx, level, g, prev, minedges, maxedges, sofar, numcols, grpo, n, s) \<Rightarrow>
            (MAXN - level, 0, nat (mx + 1 - k)))")
     (auto intro!: wf_inv_image wf_lex_prod)

subsection \<open>Colouring one digraph\<close>

text \<open>
  Modelled from the spec: the automorphism oracle. \<^verbatim>\<open>nauty\<close>, \<^verbatim>\<open>groupptr\<close> and
  \<^verbatim>\<open>makecosetreps\<close> are not part of the source file; what \<^verbatim>\<open>colourdigraph\<close> reads of
  their answer for one digraph is the group size (a mantissa \<open>grpsize1\<close>, held here
  as the natural number it stands for, and a decimal exponent \<open>grpsize2\<close>), the
  number of orbits, the orbit representative of every vertex, and the group itself,
  given as the list of elements that \<^verbatim>\<open>allgroup2\<close> enumerates.
\<close>

record nauty_result =
  grpsize1 :: nat
  grpsize2 :: nat
  numorbits :: nat
  orbits :: "nat \<Rightarrow> nat"
  elements :: "perm list"

text \<open>
  Modelled from the spec: \<^verbatim>\<open>converse\<close> of nauty replaces a digraph by the digraph
  with every edge reversed; \<^verbatim>\<open>NOLIMIT\<close> is the constant of the nauty headers that
  stands for an absent upper bound.
\<close>

definition converse_graph :: "graph \<Rightarrow> nat \<Rightarrow> graph" where
  "converse_graph g n =
     map (\<lambda>i. fold (\<lambda>j row. if ISELEMENT (g ! j) i then ADDELEMENT row j else row)
                 [0..<n] EMPTYSET) [0..<n]"

definition NOLIMIT :: int where
  "NOLIMIT = 2140000031"

text \<open>
  The body of the loop over \<open>j\<close> in \<^verbatim>\<open>colourdigraph\<close>: whether vertex \<open>j\<close> is
  equivalent to vertex \<open>i\<close>, that is whether the loop breaks at \<open>j\<close>. The rows are
  compared as they are and, when they differ, once more with \<open>i\<close> flipped in the
  rows of \<open>i\<close> and \<open>j\<close> flipped in the rows of \<open>j\<close>; the flips are undone.
\<close>

definition equivalent :: "graph \<Rightarrow> graph \<Rightarrow> (nat \<Rightarrow> bool) \<Rightarrow> nat \<Rightarrow> nat \<Rightarrow> bool" where
  "equivalent g gconv loop i j =
     (if loop j \<noteq> loop i \<or> ISELEMENT (g ! i) j \<noteq> ISELEMENT (g ! j) i then False
      else if g ! i = g ! j \<and> gconv ! i = gconv ! j then True
      else FLIPELEMENT (g ! i) i = FLIPELEMENT (g ! j) j
         \<and> FLIPELEMENT (gconv ! i) i = FLIPELEMENT (gconv ! j) j)"

text \<open>The loop over \<open>j\<close> from \<open>i - 1\<close> down to \<open>start\<close>; the result is the final \<open>j\<close>.\<close>

function most_recent :: "graph \<Rightarrow> graph \<Rightarrow> (nat \<Rightarrow> bool) \<Rightarrow> int \<Rightarrow> nat \<Rightarrow> int \<Rightarrow> int" where
  "most_recent g gconv loop start i j =
     (if j \<ge> start \<and> j \<ge> 0 then
        (if equivalent g gconv loop i (nat j) then j
         else most_recent g gconv loop start i (j - 1))
      else j)"
  by pat_completeness auto
termination
  by (relation "measure (\<lambda>(g, gconv, loop, start, i, j). nat (j + 1))") auto

definition set_prev :: "graph \<Rightarrow> graph \<Rightarrow> (nat \<Rightarrow> bool) \<Rightarrow> nat \<Rightarrow> nat \<Rightarrow> (nat \<Rightarrow> int) \<Rightarrow> (nat \<Rightarrow> int)" where
  "set_prev g gconv loop start i prev =
     (let j = most_recent g gconv loop (int start) i (int i - 1)
      in if j \<ge> int start then prev(i := j) else prev(i := - 1))"

definition region_prev :: "graph \<Rightarrow> graph \<Rightarrow> (nat \<Rightarrow> bool) \<Rightarrow> nat \<Rightarrow> nat \<Rightarrow> nat \<Rightarrow> (nat \<Rightarrow> int) \<Rightarrow> (nat \<Rightarrow> int)" where
  "region_prev g gconv loop nfixed n region prev =
     (if region = 0 then
        (if nfixed = 0 then prev
         else fold (set_prev g gconv loop 0) [0..<(if nfixed > n then n else nfixed)] prev)
      else
        (if nfixed \<ge> n then prev
         else fold (set_prev g gconv loop nfixed) [nfixed..<n] prev))"

text \<open>The adjustment of \<^verbatim>\<open>prev\<close> by the orbits, made when some orbit is not a single vertex.\<close>

definition orbit_prev :: "(nat \<Rightarrow> nat) \<Rightarrow> nat \<Rightarrow> (nat \<Rightarrow> int) \<Rightarrow> (nat \<Rightarrow> int)" where
  "orbit_prev orb n prev =
     (let j = fold (\<lambda>i j. if orb i < i \<and> orb i < j then orb i else j) [0..<n] n
      in fold (\<lambda>i pv. if orb i = j then pv(i := int j) else pv) [j + 1..<n] prev)"

text \<open>
  \<^verbatim>\<open>colourdigraph\<close>. The array \<^verbatim>\<open>weight\<close> only feeds the oracle and is left out;
  \<^verbatim>\<open>prev\<close> is a local array, taken to start at zero (every cell below \<open>n\<close> is
  written before it is read). The self-loops are taken out of \<open>g\<close> for the
  computation of \<^verbatim>\<open>prev\<close> and put back before the oracle is asked; with \<open>n = 0\<close>
  the function returns before that.
\<close>

definition colourdigraph ::
    "graph \<Rightarrow> nat \<Rightarrow> int \<Rightarrow> int \<Rightarrow> int \<Rightarrow> nat \<Rightarrow> nauty_result \<Rightarrow> gstate \<Rightarrow> gstate option" where
  "colourdigraph g nfixed minedges maxedges numcols n orc s =
     (if n > MAXN then None
      else
        let loop = (\<lambda>i. ISELEMENT (g ! i) i);
            g0 = map (\<lambda>i. if loop i then DELELEMENT (g ! i) i else g ! i) [0..<n];
            gconv = converse_graph g0 n;
            prev = region_prev g0 gconv loop nfixed n 1
                     (region_prev g0 gconv loop nfixed n 0 (\<lambda>_. 0));
            maxedges' = (if maxedges = NOLIMIT \<or> maxedges > int n * numcols
                         then int n * numcols else maxedges)
        in if int n * numcols < minedges then Some s
           else if n = 0 then
             map_option snd (scan 0 g0 prev minedges maxedges' 0 numcols None n s)
           else
             let g1 = map (\<lambda>i. if loop i then ADDELEMENT (g0 ! i) i else g0 ! i) [0..<n];
                 s1 = s\<lparr>groupsize := (if grpsize2 orc = 0 then grpsize1 orc else 0)\<rparr>;
                 prev' = (if numorbits orc < n then orbit_prev (orbits orc) n prev else prev);
                 s2 = s1\<lparr>lastrejok := False, col := fold (\<lambda>i c. c(i := 0)) [0..<n] (col s1)\<rparr>
             in map_option snd
                  (scan 0 g1 prev' minedges maxedges' 0 numcols (Some (elements orc)) n s2))"

subsection \<open>The batch driver\<close>

text \<open>
  One record of an input file: the rows of the digraph, its number of vertices, and
  the oracle's answer for it. The \<^verbatim>\<open>while\<close> loop of \<^verbatim>\<open>main\<close> reads the records of one
  file in turn; after the loop \<^verbatim>\<open>main\<close> prints the counter (unless \<^verbatim>\<open>-q\<close>) and sets it
  to zero; the \<^verbatim>\<open>for\<close> loop does this for one file after the other, and leaves the
  program at a file that cannot be opened (\<open>None\<close> in the list of files).
\<close>

type_synonym input = "graph \<times> nat \<times> nauty_result"

fun read_loop :: "input list \<Rightarrow> gstate \<Rightarrow> gstate option" where
  "read_loop [] s = Some s"
| "read_loop ((g, n, orc) # rest) s =
     (case tarjan g n s of
        None \<Rightarrow> None
      | Some s1 \<Rightarrow>
          (case colourdigraph g 0 0 NOLIMIT 2 n orc s1 of
             None \<Rightarrow> None
           | Some s2 \<Rightarrow> read_loop rest s2))"

definition report :: "gstate \<Rightarrow> gstate" where
  "report s =
     (if \<not> qswitch s then s\<lparr>err := err s @ [totalCount s], totalCount := 0\<rparr>
      else s\<lparr>totalCount := 0\<rparr>)"

fun main_loop :: "input list option list \<Rightarrow> gstate \<Rightarrow> gstate option" where
  "main_loop [] s = Some s"
| "main_loop (None # files) s = Some s"
| "main_loop (Some inputs # files) s =
     (case read_loop inputs s of
        None \<Rightarrow> None
      | Some s1 \<Rightarrow> main_loop files (report s1))"

text \<open>
  The globals as the program starts: statics are zero, \<^verbatim>\<open>stack_top\<close> is \<open>- 1\<close>, and
  \<^verbatim>\<open>main\<close> sets the three switches from the command line.
\<close>

definition init_state :: "bool \<Rightarrow> bool \<Rightarrow> bool \<Rightarrow> gstate" where
  "init_state q d l =
     \<lparr>col = (\<lambda>_. 0), first = False, lastreject = (\<lambda>_. 0), lastrejok = False,
      groupsize = 0, newgroupsize = 0, fail_level = 0,
      qswitch = q, dswitch = d, lswitch = l, totalCount = 0,
      sccinfos = (\<lambda>_. \<lparr>sccVertices = 0, isLeaf = False, sccSize = 0\<rparr>),
      currentSCC = 0, isFirstSCC = False,
      vinfos = (\<lambda>_. \<lparr>index = 0, lowlink = 0, onstack = False, descendents = 0\<rparr>),
      vertex_index = 0, stack = (\<lambda>_. 0), stack_top = - 1,
      out = [], err = [], passed = []\<rparr>"

text \<open>
  The recursion equations of the loops are unfolded by hand, one step at a time, in the
  proofs below.
\<close>

declare pop_scc.simps [simp del]
declare strongconnect.simps [simp del]
declare strongconnect_loop.simps [simp del]
declare leafcoloured.simps [simp del]
declare leaves_coloured.simps [simp del]
declare ismax_loop.simps [simp del]
declare scan.simps [simp del]
declare scan_loop.simps [simp del]
declare most_recent.simps [simp del]

section \<open>Facts about the sets\<close>

lemma int32_id: "- 2147483648 \<le> x \<Longrightarrow> x \<le> INT_MAX \<Longrightarrow> int32 x = x"
  by (simp add: int32_def INT_MAX_def)

lemma int32_wrap: "int32 (INT_MAX + 1) = - 2147483648"
  by (simp add: int32_def INT_MAX_def)

lemma bit_less_32: "bit (s :: setword) x \<Longrightarrow> x < 32"
  using bit_imp_le_length [of s x] by simp

lemma elems_less: "i \<in> elems s \<Longrightarrow> i < 32"
  by (auto simp: elems_def ISELEMENT_def dest: bit_less_32)

lemma elems_ADDELEMENT: "i < 32 \<Longrightarrow> elems (ADDELEMENT s i) = insert i (elems s)"
  by (auto simp: elems_def ISELEMENT_def ADDELEMENT_def bit_set_bit_iff possible_bit_word)

lemma elems_UNION: "elems (UNION a b) = elems a \<union> elems b"
  by (auto simp: elems_def ISELEMENT_def UNION_def bit_or_iff)

lemma elems_SETDIFF: "elems (SETDIFF a b) = elems a - elems b"
  by (auto simp: elems_def ISELEMENT_def SETDIFF_def bit_and_iff bit_not_iff dest: bit_imp_possible_bit)

lemma elems_EMPTYSET: "elems EMPTYSET = {}"
  by (simp add: elems_def ISELEMENT_def EMPTYSET_def)

lemma elems_empty_iff: "elems s = {} \<longleftrightarrow> s = 0"
  by (auto simp: elems_def ISELEMENT_def bit_eq_iff dest: bit_less_32)

lemma elems_eq_iff: "elems a = elems b \<longleftrightarrow> a = b"
  by (auto simp: elems_def ISELEMENT_def bit_eq_iff set_eq_iff dest: bit_less_32)

lemma nextelement_none: "nextelement s pos = - 1 \<longleftrightarrow> (\<forall>i\<in>elems s. \<not> pos < int i)"
proof (cases "find (\<lambda>i. pos < int i \<and> ISELEMENT s i) [0..<32]")
  case None
  then have "\<forall>i\<in>elems s. \<not> pos < int i"
    using elems_less [of _ s] by (auto simp: find_None_iff elems_def)
  with None show ?thesis by (simp add: nextelement_def)
next
  case (Some i)
  then have "i \<in> elems s" "pos < int i"
    by (auto simp: find_Some_iff elems_def)
  with Some show ?thesis by (auto simp: nextelement_def)
qed

lemma nextelement_some:
  assumes "nextelement s pos = int j"
  shows "j \<in> elems s \<and> pos < int j \<and> (\<forall>i\<in>elems s. pos < int i \<longrightarrow> j \<le> i)"
proof (cases "find (\<lambda>i. pos < int i \<and> ISELEMENT s i) [0..<32]")
  case None
  with assms show ?thesis by (simp add: nextelement_def)
next
  case (Some k)
  with assms have jk: "k = j" by (simp add: nextelement_def)
  from Some obtain m where m: "m < 32" "pos < int ([0..<32] ! m)" "ISELEMENT s ([0..<32] ! m)"
      "k = [0..<32] ! m" "\<forall>l<m. \<not> (pos < int ([0..<32] ! l) \<and> ISELEMENT s ([0..<32] ! l))"
    by (auto simp: find_Some_iff)
  have km: "k = m" using m(1,4) by simp
  have "\<forall>i\<in>elems s. pos < int i \<longrightarrow> m \<le> i"
  proof (intro ballI impI)
    fix i assume i: "i \<in> elems s" "pos < int i"
    show "m \<le> i"
    proof (rule ccontr)
      assume "\<not> m \<le> i"
      then have "i < m" by simp
      with m(5) m(1) have "\<not> (pos < int i \<and> ISELEMENT s i)" by auto
      with i show False by (simp add: elems_def)
    qed
  qed
  with m km jk show ?thesis by (auto simp: elems_def)
qed

lemma nextelement_cases:
  obtains "nextelement s pos = - 1" "\<forall>i\<in>elems s. \<not> pos < int i"
  | j where "nextelement s pos = int j" "j \<in> elems s" "pos < int j"
      "\<forall>i\<in>elems s. pos < int i \<longrightarrow> j \<le> i"
proof (cases "nextelement s pos = - 1")
  case True
  then show ?thesis using that(1) nextelement_none by blast
next
  case False
  then have "0 \<le> nextelement s pos"
    by (simp add: nextelement_def split: option.splits)
  then obtain j where "nextelement s pos = int j" using nonneg_int_cases by blast
  then show ?thesis using that(2) nextelement_some by blast
qed

section \<open>The admissibility filter counts the covered colourings\<close>

lemma leafcoloured_spec:
  "0 \<le> j \<Longrightarrow> nat j \<in> elems scc \<Longrightarrow>
   leafcoloured scc c j = Some (\<exists>v\<in>elems scc. j \<le> int v \<and> c v \<noteq> 0)"
proof (induction scc c j rule: leafcoloured.induct)
  case (1 scc c j)
  show ?case
  proof (cases "c (nat j) \<noteq> 0")
    case True
    with "1.prems" have "\<exists>v\<in>elems scc. j \<le> int v \<and> c v \<noteq> 0"
      by (intro bexI [of _ "nat j"]) auto
    with True "1.prems" show ?thesis
      by (subst leafcoloured.simps) simp
  next
    case False
    note c0 = this
    show ?thesis
    proof (cases rule: nextelement_cases [of scc j])
      case 1
      have "\<not> (\<exists>v\<in>elems scc. j \<le> int v \<and> c v \<noteq> 0)"
      proof
        assume "\<exists>v\<in>elems scc. j \<le> int v \<and> c v \<noteq> 0"
        then obtain v where v: "v \<in> elems scc" "j \<le> int v" "c v \<noteq> 0" by blast
        with c0 have "int v \<noteq> j" by auto
        with v 1(2) show False by auto
      qed
      with 1(1) c0 "1.prems" show ?thesis
        by (subst leafcoloured.simps) (simp add: UNDEFINED_def)
    next
      case (2 k)
      have ih: "leafcoloured scc c (int k) = Some (\<exists>v\<in>elems scc. int k \<le> int v \<and> c v \<noteq> 0)"
        using "1.IH" [of] "1.prems" c0 2 by (simp add: UNDEFINED_def)
      have "(\<exists>v\<in>elems scc. j \<le> int v \<and> c v \<noteq> 0) \<longleftrightarrow> (\<exists>v\<in>elems scc. int k \<le> int v \<and> c v \<noteq> 0)"
      proof
        assume "\<exists>v\<in>elems scc. j \<le> int v \<and> c v \<noteq> 0"
        then obtain v where v: "v \<in> elems scc" "j \<le> int v" "c v \<noteq> 0" by blast
        with c0 have "int v \<noteq> j" by auto
        with v have "j < int v" by simp
        with 2(4) v(1) have "k \<le> v" by blast
        with v show "\<exists>v\<in>elems scc. int k \<le> int v \<and> c v \<noteq> 0" by auto
      next
        assume "\<exists>v\<in>elems scc. int k \<le> int v \<and> c v \<noteq> 0"
        with 2(3) show "\<exists>v\<in>elems scc. j \<le> int v \<and> c v \<noteq> 0" by force
      qed
      with ih 2(1) c0 "1.prems" show ?thesis
        by (subst leafcoloured.simps) (simp add: UNDEFINED_def)
    qed
  qed
qed

lemma leafcoloured_first:
  assumes "elems scc \<noteq> {}"
  shows "leafcoloured scc c (nextelement scc UNDEFINED) = Some (\<exists>v\<in>elems scc. c v \<noteq> 0)"
proof (cases rule: nextelement_cases [of scc "- 1"])
  case 1
  with assms show ?thesis by auto
next
  case (2 k)
  have "(\<exists>v\<in>elems scc. int k \<le> int v \<and> c v \<noteq> 0) \<longleftrightarrow> (\<exists>v\<in>elems scc. c v \<noteq> 0)"
    using 2(4) by auto
  with leafcoloured_spec [of "int k" scc c] 2 show ?thesis
    by (simp add: UNDEFINED_def)
qed

definition leaves_nonempty :: "gstate \<Rightarrow> bool" where
  "leaves_nonempty s =
     (\<forall>i<currentSCC s. isLeaf (sccinfos s i) \<longrightarrow> elems (sccVertices (sccinfos s i)) \<noteq> {})"

definition leaves_covered :: "(nat \<Rightarrow> int) \<Rightarrow> gstate \<Rightarrow> bool" where
  "leaves_covered c s =
     (\<forall>i<currentSCC s. isLeaf (sccinfos s i) \<longrightarrow>
        (\<exists>v\<in>elems (sccVertices (sccinfos s i)). c v = 1))"

lemma leaves_coloured_spec:
  assumes "\<forall>i<currentSCC s. isLeaf (sccinfos s i) \<longrightarrow> elems (sccVertices (sccinfos s i)) \<noteq> {}"
  shows "leaves_coloured i0 c s =
     Some (\<forall>i<currentSCC s. i0 \<le> i \<longrightarrow> isLeaf (sccinfos s i) \<longrightarrow>
             (\<exists>v\<in>elems (sccVertices (sccinfos s i)). c v \<noteq> 0))"
  using assms
proof (induction i0 c s rule: leaves_coloured.induct)
  case (1 i c s)
  let ?P = "\<lambda>k. isLeaf (sccinfos s k) \<longrightarrow> (\<exists>v\<in>elems (sccVertices (sccinfos s k)). c v \<noteq> 0)"
  show ?case
  proof (cases "i < currentSCC s")
    case False
    then show ?thesis by (subst leaves_coloured.simps) auto
  next
    case True
    have split: "(\<forall>k<currentSCC s. i \<le> k \<longrightarrow> ?P k) \<longleftrightarrow> (?P i \<and> (\<forall>k<currentSCC s. i + 1 \<le> k \<longrightarrow> ?P k))"
    proof -
      have "i \<le> k \<longleftrightarrow> k = i \<or> i + 1 \<le> k" for k by arith
      with True show ?thesis by auto
    qed
    show ?thesis
    proof (cases "isLeaf (sccinfos s i)")
      case False
      with True "1.IH"(1) "1.prems" split show ?thesis
        by (subst leaves_coloured.simps) simp
    next
      case leaf: True
      with True "1.prems" have ne: "elems (sccVertices (sccinfos s i)) \<noteq> {}" by blast
      note lf = leafcoloured_first [OF ne, of c]
      show ?thesis
      proof (cases "\<exists>v\<in>elems (sccVertices (sccinfos s i)). c v \<noteq> 0")
        case True
        with lf \<open>i < currentSCC s\<close> leaf "1.IH"(2) "1.prems" split show ?thesis
          by (subst leaves_coloured.simps) simp
      next
        case False
        with lf \<open>i < currentSCC s\<close> leaf split show ?thesis
          by (subst leaves_coloured.simps) simp
      qed
    qed
  qed
qed

lemma extended_digraph_rows:
  assumes "n < MAXN"
  shows "length (extended_digraph g c n) = n + 1"
    and "\<forall>j<n. elems (extended_digraph g c n ! j) = elems (g ! j) \<union> (if c j \<noteq> 0 then {n} else {})"
    and "elems (extended_digraph g c n ! n) = {}"
proof -
  have n32: "n < 32" using assms by (simp add: MAXN_def)
  show "length (extended_digraph g c n) = n + 1" by (simp add: extended_digraph_def)
  show "\<forall>j<n. elems (extended_digraph g c n ! j) = elems (g ! j) \<union> (if c j \<noteq> 0 then {n} else {})"
    using n32 by (simp add: extended_digraph_def nth_append elems_ADDELEMENT)
  show "elems (extended_digraph g c n ! n) = {}"
    by (simp add: extended_digraph_def nth_append elems_EMPTYSET)
qed

text \<open>
  Claim C1. In a state whose leaf components are not empty (so the filter reads no
  cell below the colour buffer), for a colouring with the two colours 0 and 1. When
  every component marked leaf holds a vertex of colour 1, \<^verbatim>\<open>-d\<close> is set and the digraph
  has \<open>MAXN\<close> vertices or more, \<^verbatim>\<open>filter_and_output\<close> writes past its buffer \<^verbatim>\<open>gnew\<close>,
  which has \<open>MAXN\<close> rows. In every other case it returns; the counter has gone up by
  one exactly when every component marked leaf holds a vertex of colour 1, and is
  unchanged otherwise; and exactly when the colouring is counted and \<^verbatim>\<open>-d\<close> is set one
  digraph is written, on \<open>n + 1\<close> vertices, in which the row of a vertex \<open>j < n\<close> is its
  row in \<open>g\<close>, with \<open>n\<close> added when \<open>j\<close> has colour 1, and the row of \<open>n\<close> is empty.
\<close>

theorem filter_counts_covered_or_overruns:
  assumes "leaves_nonempty s" and "\<forall>v. c v = 0 \<or> c v = 1"
  shows "(leaves_covered c s \<and> dswitch s \<and> MAXN \<le> n \<longrightarrow> filter_and_output g c n s = None)
     \<and> (\<not> (leaves_covered c s \<and> dswitch s \<and> MAXN \<le> n) \<longrightarrow>
          (\<exists>s'. filter_and_output g c n s = Some s'
             \<and> (leaves_covered c s \<longleftrightarrow> totalCount s' = totalCount s + 1)
             \<and> (leaves_covered c s \<longleftrightarrow> totalCount s' \<noteq> totalCount s)
             \<and> (if leaves_covered c s \<and> dswitch s
                 then \<exists>gx. out s' = out s @ [(gx, n + 1)] \<and> length gx = n + 1
                        \<and> (\<forall>j<n. elems (gx ! j) = elems (g ! j) \<union> (if c j = 1 then {n} else {}))
                        \<and> elems (gx ! n) = {}
                 else out s' = out s)))"
proof -
  have c01: "c v = 1 \<longleftrightarrow> c v \<noteq> 0" for v using assms(2) [rule_format, of v] by auto
  have eq: "leaves_covered c s \<longleftrightarrow> (\<forall>i<currentSCC s. 0 \<le> i \<longrightarrow> isLeaf (sccinfos s i) \<longrightarrow>
             (\<exists>v\<in>elems (sccVertices (sccinfos s i)). c v \<noteq> 0))"
    by (simp add: leaves_covered_def c01)
  have lc: "leaves_coloured 0 c s = Some (leaves_covered c s)"
    using leaves_coloured_spec [of s 0 c] assms(1) unfolding eq leaves_nonempty_def by simp
  show ?thesis
  proof (cases "leaves_covered c s")
    case False
    with lc show ?thesis by (simp add: filter_and_output_def)
  next
    case cov: True
    show ?thesis
    proof (cases "dswitch s")
      case False
      with lc cov show ?thesis by (simp add: filter_and_output_def)
    next
      case d: True
      show ?thesis
      proof (cases "MAXN \<le> n")
        case True
        with lc cov d show ?thesis by (simp add: filter_and_output_def)
      next
        case False
        then have lt: "n < MAXN" by simp
        note r = extended_digraph_rows [OF lt, of g c]
        have f: "filter_and_output g c n s
            = Some (s\<lparr>out := out s @ [(extended_digraph g c n, n + 1)],
                       totalCount := totalCount s + 1\<rparr>)"
          using lc cov d lt by (simp add: filter_and_output_def)
        have "\<exists>gx. out s @ [(extended_digraph g c n, n + 1)] = out s @ [(gx, n + 1)]
            \<and> length gx = n + 1
            \<and> (\<forall>j<n. elems (gx ! j) = elems (g ! j) \<union> (if c j = 1 then {n} else {}))
            \<and> elems (gx ! n) = {}"
          using r by (intro exI [of _ "extended_digraph g c n"]) (simp add: c01)
        with f cov d False show ?thesis by simp
      qed
    qed
  qed
qed

section \<open>Two small inputs\<close>

text \<open>
  The digraph on two vertices with the single edge from 0 to 1, and the answer of the
  oracle for a digraph on \<open>n\<close> vertices without symmetries: the group is the identity
  alone and every vertex is its own orbit.
\<close>

definition single_edge :: graph where
  "single_edge = [ADDELEMENT EMPTYSET 1, EMPTYSET]"

definition trivial_group :: "nat \<Rightarrow> nauty_result" where
  "trivial_group n =
     \<lparr>grpsize1 = 1, grpsize2 = 0, numorbits = n, orbits = (\<lambda>i. i), elements = [\<lambda>i. i]\<rparr>"

lemma upt_2: "[0..<2] = [0, 1]"
  by (simp add: upt_rec)

lemma nextelement_small:
  "nextelement 0 (- 1) = - 1"
  "nextelement 1 (- 1) = 0" "nextelement 1 0 = - 1"
  "nextelement 2 (- 1) = 1" "nextelement 2 1 = - 1"
  by code_simp+

lemmas tarjan_eval =
  tarjan_def reset_cell_def MAXN_def UNDEFINED_def visit_def push_def pop_def
  set_onstack_def add_descendent_def lower_def close_scc_def
  ADDELEMENT_def EMPTYSET_def UNION_def SETDIFF_def nextelement_small Let_def
  pop_scc.simps strongconnect.simps strongconnect_loop.simps

lemmas colour_eval =
  colourdigraph_def MAXN_def NOLIMIT_def UNDEFINED_def region_prev_def set_prev_def
  equivalent_def converse_graph_def orbit_prev_def ISELEMENT_def ADDELEMENT_def
  DELELEMENT_def FLIPELEMENT_def EMPTYSET_def trythisone_def accept_test_def
  filter_and_output_def extended_digraph_def nextelement_small Let_def
  leafcoloured.simps leaves_coloured.simps ismax_loop.simps scan.simps scan_loop.simps
  most_recent.simps

lemma single_edge_tarjan:
  assumes "0 \<le> vertex_index s" and "vertex_index s + 2 \<le> INT_MAX"
  shows "\<exists>s'. tarjan single_edge 2 s = Some s' \<and> currentSCC s' = 2
    \<and> sccinfos s' 0 = \<lparr>sccVertices = 2, isLeaf = True, sccSize = 1\<rparr>
    \<and> sccinfos s' 1 = \<lparr>sccVertices = 1, isLeaf = False, sccSize = 1\<rparr>
    \<and> vertex_index s' = vertex_index s + 2
    \<and> qswitch s' = qswitch s \<and> dswitch s' = dswitch s \<and> totalCount s' = totalCount s
    \<and> out s' = out s \<and> err s' = err s \<and> passed s' = passed s"
proof -
  have w: "int32 (vertex_index s + 1) = vertex_index s + 1"
    "int32 (vertex_index s + 2) = vertex_index s + 2"
    "int32 (1 + vertex_index s) = vertex_index s + 1"
    "int32 (2 + vertex_index s) = vertex_index s + 2"
    using assms by (simp_all add: int32_id)
  show ?thesis
    using assms(1) by (simp add: single_edge_def upt_2 tarjan_eval w)
qed

lemma single_edge_filter:
  assumes "currentSCC s = 2"
    and "sccinfos s 0 = \<lparr>sccVertices = 2, isLeaf = True, sccSize = 1\<rparr>"
    and "sccinfos s 1 = \<lparr>sccVertices = 1, isLeaf = False, sccSize = 1\<rparr>"
  shows "map_option totalCount (filter_and_output single_edge c 2 s)
    = Some (if c 1 \<noteq> 0 then totalCount s + 1 else totalCount s)"
  using assms by (simp add: single_edge_def upt_2 colour_eval)

lemma single_edge_colour:
  assumes "currentSCC s = 2"
    and "sccinfos s 0 = \<lparr>sccVertices = 2, isLeaf = True, sccSize = 1\<rparr>"
    and "sccinfos s 1 = \<lparr>sccVertices = 1, isLeaf = False, sccSize = 1\<rparr>"
  shows "\<exists>s'. colourdigraph single_edge 0 0 NOLIMIT 2 2 (trivial_group 2) s = Some s'
    \<and> passed s' = passed s @ [[0, 0], [0, 1], [1, 0], [1, 1]]
    \<and> totalCount s' = totalCount s + 2
    \<and> out s' = (if dswitch s then out s @ [([2, 4, 0], 3), ([6, 4, 0], 3)] else out s)
    \<and> qswitch s' = qswitch s \<and> err s' = err s"
  using assms by (simp add: single_edge_def trivial_group_def upt_2 colour_eval)

text \<open>
  Claim C9. For the digraph on two vertices with the single edge from 0 to 1, started
  from the initial globals: the decomposer records two components, \<open>{1}\<close> first and
  marked leaf, then \<open>{0}\<close>, not marked; the filter counts a colouring exactly when
  vertex 1 is coloured; the search hands the four colourings to the filter and two of
  them, \<open>(0,1)\<close> and \<open>(1,1)\<close>, are counted (with \<^verbatim>\<open>-d\<close> exactly their two extended
  digraphs are written); the total printed for a file holding this one digraph is 2.
\<close>

theorem single_edge_pipeline:
  "\<exists>s1 s2. tarjan single_edge 2 (init_state q d l) = Some s1
     \<and> currentSCC s1 = 2
     \<and> sccinfos s1 0 = \<lparr>sccVertices = ADDELEMENT EMPTYSET 1, isLeaf = True, sccSize = 1\<rparr>
     \<and> sccinfos s1 1 = \<lparr>sccVertices = ADDELEMENT EMPTYSET 0, isLeaf = False, sccSize = 1\<rparr>
     \<and> (\<forall>c. map_option totalCount (filter_and_output single_edge c 2 s1)
             = Some (if c 1 = 0 then 0 else 1))
     \<and> colourdigraph single_edge 0 0 NOLIMIT 2 2 (trivial_group 2) s1 = Some s2
     \<and> passed s2 = [[0, 0], [0, 1], [1, 0], [1, 1]]
     \<and> totalCount s2 = 2
     \<and> out s2 = (if d then [(extended_digraph single_edge (\<lambda>i. [0, 1] ! i) 2, 3),
                             (extended_digraph single_edge (\<lambda>i. [1, 1] ! i) 2, 3)]
                  else [])
     \<and> map_option err (main_loop [Some [(single_edge, 2, trivial_group 2)]]
                          (init_state False d l)) = Some [2]"
proof -
  have v: "0 \<le> vertex_index (init_state q d l)" for q
    by (simp add: init_state_def)
  have v2: "vertex_index (init_state q d l) + 2 \<le> INT_MAX" for q
    by (simp add: init_state_def INT_MAX_def)
  from single_edge_tarjan [OF v v2] obtain s1 where
    t: "tarjan single_edge 2 (init_state q d l) = Some s1" and
    c: "currentSCC s1 = 2" and
    i0: "sccinfos s1 0 = \<lparr>sccVertices = 2, isLeaf = True, sccSize = 1\<rparr>" and
    i1: "sccinfos s1 1 = \<lparr>sccVertices = 1, isLeaf = False, sccSize = 1\<rparr>" and
    r: "dswitch s1 = dswitch (init_state q d l)" "totalCount s1 = totalCount (init_state q d l)"
       "out s1 = out (init_state q d l)" "passed s1 = passed (init_state q d l)"
    by blast
  from single_edge_colour [OF c i0 i1] obtain s2 where
    k: "colourdigraph single_edge 0 0 NOLIMIT 2 2 (trivial_group 2) s1 = Some s2" and
    p: "passed s2 = passed s1 @ [[0, 0], [0, 1], [1, 0], [1, 1]]" and
    n: "totalCount s2 = totalCount s1 + 2" and
    o: "out s2 = (if dswitch s1 then out s1 @ [([2, 4, 0], 3), ([6, 4, 0], 3)] else out s1)"
    by blast
  have f: "\<forall>c. map_option totalCount (filter_and_output single_edge c 2 s1)
             = Some (if c 1 = 0 then 0 else 1)"
  proof
    fix c
    show "map_option totalCount (filter_and_output single_edge c 2 s1)
             = Some (if c 1 = 0 then 0 else 1)"
      using single_edge_filter [OF c i0 i1, of c] r(2) by (auto simp: init_state_def)
  qed
  have e: "extended_digraph single_edge (\<lambda>i. [0, 1] ! i) 2 = [2, 4, 0]"
    "extended_digraph single_edge (\<lambda>i. [1, 1] ! i) 2 = [6, 4, 0]"
    by (simp_all add: extended_digraph_def single_edge_def upt_2 ADDELEMENT_def EMPTYSET_def)
  from single_edge_tarjan [OF v [of False] v2 [of False]] obtain t1 where
    t': "tarjan single_edge 2 (init_state False d l) = Some t1" and
    c': "currentSCC t1 = 2" and
    i0': "sccinfos t1 0 = \<lparr>sccVertices = 2, isLeaf = True, sccSize = 1\<rparr>" and
    i1': "sccinfos t1 1 = \<lparr>sccVertices = 1, isLeaf = False, sccSize = 1\<rparr>" and
    r': "qswitch t1 = qswitch (init_state False d l)"
        "totalCount t1 = totalCount (init_state False d l)"
        "err t1 = err (init_state False d l)"
    by blast
  from single_edge_colour [OF c' i0' i1'] obtain t2 where
    k': "colourdigraph single_edge 0 0 NOLIMIT 2 2 (trivial_group 2) t1 = Some t2" and
    n': "totalCount t2 = totalCount t1 + 2" and
    q': "qswitch t2 = qswitch t1" "err t2 = err t1"
    by blast
  have m: "map_option err (main_loop [Some [(single_edge, 2, trivial_group 2)]]
             (init_state False d l)) = Some [2]"
    using t' k' n' q' r' by (simp add: report_def init_state_def)
  show ?thesis
    using t c i0 i1 f k p n o r e m
    by (simp add: init_state_def ADDELEMENT_def EMPTYSET_def)
qed

theorem single_edge_pipeline_witness:
  "\<exists>s1 s2. tarjan single_edge 2 (init_state False True False) = Some s1
     \<and> sccinfos s1 0 = \<lparr>sccVertices = ADDELEMENT EMPTYSET 1, isLeaf = True, sccSize = 1\<rparr>
     \<and> sccinfos s1 1 = \<lparr>sccVertices = ADDELEMENT EMPTYSET 0, isLeaf = False, sccSize = 1\<rparr>
     \<and> colourdigraph single_edge 0 0 NOLIMIT 2 2 (trivial_group 2) s1 = Some s2
     \<and> totalCount s2 = 2
     \<and> map fst (out s2) = [[2, 4, 0], [6, 4, 0]]"
proof -
  have e: "extended_digraph single_edge (\<lambda>i. [0, 1] ! i) 2 = [2, 4, 0]"
    "extended_digraph single_edge (\<lambda>i. [1, 1] ! i) 2 = [6, 4, 0]"
    by (simp_all add: extended_digraph_def single_edge_def upt_2 ADDELEMENT_def EMPTYSET_def)
  from single_edge_pipeline [of False True False] obtain s1 s2 where
    "tarjan single_edge 2 (init_state False True False) = Some s1"
    "sccinfos s1 0 = \<lparr>sccVertices = ADDELEMENT EMPTYSET 1, isLeaf = True, sccSize = 1\<rparr>"
    "sccinfos s1 1 = \<lparr>sccVertices = ADDELEMENT EMPTYSET 0, isLeaf = False, sccSize = 1\<rparr>"
    "colourdigraph single_edge 0 0 NOLIMIT 2 2 (trivial_group 2) s1 = Some s2"
    "totalCount s2 = 2"
    "out s2 = [(extended_digraph single_edge (\<lambda>i. [0, 1] ! i) 2, 3),
               (extended_digraph single_edge (\<lambda>i. [1, 1] ! i) 2, 3)]"
    by auto
  then show ?thesis by (simp add: e)
qed

text \<open>
  Claim C10. For a digraph without vertices, from any state of the globals and whatever
  the oracle would answer: the decomposer records no component; the colouring handed to
  \<^verbatim>\<open>trythisone\<close> is the empty one and it is accepted with no group (no permutation is
  tested); the filter finds no uncovered leaf; the counter goes up by exactly one.
\<close>

theorem empty_digraph_counted:
  "\<exists>s1 s2. tarjan [] 0 s = Some s1
     \<and> currentSCC s1 = 0
     \<and> leaves_coloured 0 c s1 = Some True
     \<and> accept_test None 0 s1 = (True, s1)
     \<and> colourdigraph [] 0 0 NOLIMIT 2 0 orc s1 = Some s2
     \<and> read_loop [([], 0, orc)] s = Some s2
     \<and> passed s2 = passed s @ [[]]
     \<and> totalCount s2 = totalCount s + 1"
  by (simp add: tarjan_def colour_eval)

theorem empty_digraph_counted_witness:
  "\<exists>s2. read_loop [([], 0, trivial_group 0)] (init_state False False False) = Some s2
     \<and> passed s2 = [[]]
     \<and> totalCount s2 = 1"
  using empty_digraph_counted [of "init_state False False False" "\<lambda>_. 0" "trivial_group 0"]
  by (auto simp: init_state_def)

section \<open>The canonicity test accepts the maximal colourings\<close>

text \<open>
  The colouring \<open>c\<close> permuted by \<open>p\<close> is lexicographically greater than \<open>c\<close> on the
  cells below \<open>n\<close>: at the first cell where they differ the permuted one is greater.
  This is the comparison of \<^verbatim>\<open>ismax\<close>; \<open>perm_greater_lexord\<close> relates it to the
  lexicographic order of lists.
\<close>
definition perm_greater :: "(nat \<Rightarrow> int) \<Rightarrow> perm \<Rightarrow> nat \<Rightarrow> bool" where
  "perm_greater c p n = (\<exists>i<n. (\<forall>j<i. c (p j) = c j) \<and> c (p i) > c i)"

definition lex_le :: "int list \<Rightarrow> int list \<Rightarrow> bool" where
  "lex_le xs ys = (xs = ys \<or> (xs, ys) \<in> lexord {(a, b). a < b})"

lemma perm_greater_lexord:
  "perm_greater c p n \<longleftrightarrow> (map c [0..<n], map (\<lambda>i. c (p i)) [0..<n]) \<in> lexord {(a, b). a < b}"
proof -
  have t: "take i (map c [0..<n]) = take i (map (\<lambda>i. c (p i)) [0..<n]) \<longleftrightarrow> (\<forall>j<i. c (p j) = c j)"
    if "i < n" for i
    using that by (auto simp: list_eq_iff_nth_eq)
  show ?thesis
    unfolding perm_greater_def lexord_take_index_conv
    using t by auto
qed

lemma not_perm_greater_lex_le:
  "\<not> perm_greater c p n \<longleftrightarrow> lex_le (map (\<lambda>i. c (p i)) [0..<n]) (map c [0..<n])"
proof -
  let ?xs = "map (\<lambda>i. c (p i)) [0..<n]" and ?ys = "map c [0..<n]"
  have tot: "?xs = ?ys \<or> (?xs, ?ys) \<in> lexord {(a, b). a < b} \<or> (?ys, ?xs) \<in> lexord {(a, b). a < b}"
  proof -
    have "\<forall>a b. (a, b) \<in> {(a, b). a < (b::int)} \<or> a = b \<or> (b, a) \<in> {(a, b). a < b}"
      by auto
    from lexord_linear [OF this, of ?xs ?ys] show ?thesis by blast
  qed
  have irr: "(?ys, ?xs) \<in> lexord {(a, b). a < b} \<Longrightarrow> \<not> (?xs, ?ys) \<in> lexord {(a, b). a < b}"
    using lexord_asymmetric [of "{(a, b). a < (b::int)}" ?ys ?xs]
    by (auto simp: asym_on_def)
  have irr2: "(?ys, ?xs) \<in> lexord {(a, b). a < b} \<Longrightarrow> ?xs \<noteq> ?ys"
  proof
    assume a: "(?ys, ?xs) \<in> lexord {(a, b). a < b}" and e: "?xs = ?ys"
    have "(?ys, ?ys) \<notin> lexord {(a, b). a < (b::int)}"
      by (rule lexord_irreflexive) simp
    with a e show False by simp
  qed
  show ?thesis
    unfolding perm_greater_lexord lex_le_def using tot irr irr2 by blast
qed


text \<open>
  The permutation \<open>p\<close> rejects the colouring \<open>c\<close>, and \<open>f\<close> is the level that \<^verbatim>\<open>ismax\<close>
  reports: the greatest image of a cell up to the first difference.
\<close>
definition rejects :: "(nat \<Rightarrow> int) \<Rightarrow> perm \<Rightarrow> nat \<Rightarrow> nat \<Rightarrow> bool" where
  "rejects c p n f =
     (\<exists>k<n. (\<forall>j<k. c (p j) = c j) \<and> c (p k) > c k
          \<and> (\<forall>j\<le>k. p j \<le> f) \<and> f \<in> insert 0 (p ` {0..k}))"

lemma rejects_perm_greater: "rejects c p n f \<Longrightarrow> perm_greater c p n"
  by (auto simp: rejects_def perm_greater_def)

lemma ismax_loop_cases:
  assumes "\<forall>j<i. col s (p j) = col s j" and "i \<le> n"
    and "\<forall>j<i. p j \<le> fail" and "fail \<in> insert 0 (p ` {0..<i})"
  shows "(\<exists>f. rejects (col s) p n f \<and> ismax_loop p n i fail s = (False, s\<lparr>fail_level := int f\<rparr>))
       \<or> (\<not> perm_greater (col s) p n
           \<and> (ismax_loop p n i fail s = (True, s)
              \<or> ismax_loop p n i fail s = (True, s\<lparr>newgroupsize := newgroupsize s + 1\<rparr>)))"
  using assms
proof (induction p n i fail s rule: ismax_loop.induct)
  case (1 p n i fail s)
  show ?case
  proof (cases "i < n")
    case False
    with "1.prems" have "\<not> perm_greater (col s) p n"
      by (auto simp: perm_greater_def)
    with False show ?thesis
      by (subst (1 2 3) ismax_loop.simps) simp
  next
    case True
    let ?f = "if p i > fail then p i else fail"
    have f1: "\<forall>j<i + 1. p j \<le> ?f"
      using "1.prems"(3) by (auto simp: less_Suc_eq)
    have f2: "?f \<in> insert 0 (p ` {0..<i + 1})"
      using "1.prems"(4) by auto
    consider (gt) "col s (p i) > col s i" | (lt) "col s (p i) < col s i" | (eq) "col s (p i) = col s i"
      by linarith
    then show ?thesis
    proof cases
      case gt
      have "rejects (col s) p n ?f"
        unfolding rejects_def
      proof (intro exI [of _ i] conjI)
        show "i < n" by fact
        show "\<forall>j<i. col s (p j) = col s j" using "1.prems"(1) .
        show "col s i < col s (p i)" by fact
        show "\<forall>j\<le>i. p j \<le> ?f" using f1 by (simp add: less_Suc_eq_le)
        show "?f \<in> insert 0 (p ` {0..i})" using f2 by (simp add: atLeastLessThanSuc_atLeastAtMost)
      qed
      moreover have "ismax_loop p n i fail s = (False, s\<lparr>fail_level := int ?f\<rparr>)"
        using True gt by (subst ismax_loop.simps) (simp add: Let_def)
      ultimately show ?thesis by blast
    next
      case lt
      have "\<not> perm_greater (col s) p n"
        unfolding perm_greater_def
      proof
        assume "\<exists>k<n. (\<forall>j<k. col s (p j) = col s j) \<and> col s k < col s (p k)"
        then obtain k where k: "k < n" "\<forall>j<k. col s (p j) = col s j" "col s k < col s (p k)"
          by blast
        have "k \<noteq> i" using k(3) lt by auto
        moreover have "\<not> i < k" using k(2) lt by auto
        moreover have "\<not> k < i" using "1.prems"(1) k(3) by auto
        ultimately show False by linarith
      qed
      moreover have "ismax_loop p n i fail s = (True, s)"
        using True lt by (subst ismax_loop.simps) (simp add: Let_def)
      ultimately show ?thesis by blast
    next
      case eq
      have p1: "\<forall>j<i + 1. col s (p j) = col s j"
        using "1.prems"(1) eq by (auto simp: less_Suc_eq)
      have step: "ismax_loop p n i fail s = ismax_loop p n (i + 1) ?f s"
        using True eq by (subst ismax_loop.simps) (simp add: Let_def)
      have "i + 1 \<le> n" using True by simp
      from "1.IH" [OF True refl refl _ _ p1 this f1 f2]
      show ?thesis unfolding step using eq by auto
    qed
  qed
qed


definition obs_eq :: "gstate \<Rightarrow> gstate \<Rightarrow> bool" where
  "obs_eq s t =
     (groupsize t = groupsize s \<and> qswitch t = qswitch s \<and> dswitch t = dswitch s
      \<and> lswitch t = lswitch s \<and> totalCount t = totalCount s \<and> sccinfos t = sccinfos s
      \<and> currentSCC t = currentSCC s \<and> isFirstSCC t = isFirstSCC s \<and> vinfos t = vinfos s
      \<and> vertex_index t = vertex_index s \<and> stack t = stack s \<and> stack_top t = stack_top s
      \<and> out t = out s \<and> err t = err s \<and> passed t = passed s)"

lemma obs_eq_refl [simp]: "obs_eq s s"
  by (simp add: obs_eq_def)

lemma obs_eq_trans: "obs_eq s t \<Longrightarrow> obs_eq t u \<Longrightarrow> obs_eq s u"
  by (simp add: obs_eq_def)

lemma obs_eq_upd [simp]:
  "obs_eq s (t\<lparr>fail_level := a\<rparr>) = obs_eq s t"
  "obs_eq s (t\<lparr>newgroupsize := b\<rparr>) = obs_eq s t"
  "obs_eq s (t\<lparr>first := c\<rparr>) = obs_eq s t"
  "obs_eq s (t\<lparr>lastreject := d\<rparr>) = obs_eq s t"
  "obs_eq s (t\<lparr>lastrejok := e\<rparr>) = obs_eq s t"
  "obs_eq s (t\<lparr>col := f\<rparr>) = obs_eq s t"
  by (simp_all add: obs_eq_def)

lemma obs_eq_upd_left [simp]:
  "obs_eq (s\<lparr>fail_level := a\<rparr>) t = obs_eq s t"
  "obs_eq (s\<lparr>newgroupsize := b\<rparr>) t = obs_eq s t"
  "obs_eq (s\<lparr>first := c\<rparr>) t = obs_eq s t"
  "obs_eq (s\<lparr>lastreject := d\<rparr>) t = obs_eq s t"
  "obs_eq (s\<lparr>lastrejok := e\<rparr>) t = obs_eq s t"
  "obs_eq (s\<lparr>col := f\<rparr>) t = obs_eq s t"
  by (simp_all add: obs_eq_def)

lemma rejects_cong: "\<forall>i<n. p i = q i \<Longrightarrow> rejects c p n f = rejects c q n f"
proof -
  assume a: "\<forall>i<n. p i = q i"
  have "p ` {0..k} = q ` {0..k}" if "k < n" for k
    using a that by (intro image_cong) auto
  with a show ?thesis
    unfolding rejects_def
    by (intro ex_cong1 conj_cong refl) (auto simp: image_iff)
qed

lemma perm_greater_cong: "\<forall>i<n. p i = q i \<Longrightarrow> perm_greater c p n = perm_greater c q n"
  unfolding perm_greater_def by (intro ex_cong1 conj_cong refl) auto

lemma ismax_cases:
  "(\<exists>f. rejects (col s) p n f \<and> ismax p n s = (False, s\<lparr>fail_level := int f\<rparr>))
   \<or> (\<not> perm_greater (col s) p n
       \<and> (ismax p n s = (True, s)
          \<or> ismax p n s = (True, s\<lparr>newgroupsize := newgroupsize s + 1\<rparr>)))"
  unfolding ismax_def by (rule ismax_loop_cases) simp_all

lemma fold_copy: "fold (\<lambda>i r. r(i := p i)) [0..<n] r0 = (\<lambda>i. if i < n then p i else r0 i)"
  by (induction n) (auto simp: fun_eq_iff)

text \<open>
  The fields that the canonicity test does not touch, and what a run of \<^verbatim>\<open>testmax\<close> over
  the permutations \<open>ps\<close> leaves behind: the answer \<open>a\<close> and, after a rejection, the
  rejecting permutation in \<^verbatim>\<open>lastreject\<close> with its level in \<^verbatim>\<open>fail_level\<close>.
\<close>
definition test_post :: "perm list \<Rightarrow> nat \<Rightarrow> gstate \<Rightarrow> bool \<Rightarrow> gstate \<Rightarrow> bool" where
  "test_post ps n s a s' =
     (obs_eq s s' \<and> col s' = col s
      \<and> (a \<longleftrightarrow> (\<forall>p\<in>set ps. \<not> perm_greater (col s) p n))
      \<and> (a \<longrightarrow> lastreject s' = lastreject s \<and> lastrejok s' = lastrejok s)
      \<and> (\<not> a \<longrightarrow> lastrejok s' \<and> (\<exists>p\<in>set ps. \<exists>f. (\<forall>i<n. lastreject s' i = p i)
                \<and> rejects (col s) p n f \<and> fail_level s' = int f)))"

lemma allgroup2_post:
  assumes "\<not> first s"
  shows "test_post ps n s (fst (allgroup2 ps n s) = 0) (snd (allgroup2 ps n s))"
  using assms
proof (induction ps arbitrary: s)
  case Nil
  then show ?case by (simp add: test_post_def)
next
  case (Cons p ps)
  from ismax_cases [of s p n] show ?case
  proof (elim disjE exE conjE)
    fix f assume r: "rejects (col s) p n f" and i: "ismax p n s = (False, s\<lparr>fail_level := int f\<rparr>)"
    from r have "perm_greater (col s) p n" by (rule rejects_perm_greater)
    with r i Cons.prems show ?thesis
      by (auto simp: test_post_def testmax_def fold_copy)
  next
    assume g: "\<not> perm_greater (col s) p n" and i: "ismax p n s = (True, s)"
    with Cons.prems Cons.IH [of s] show ?thesis
      by (auto simp: test_post_def testmax_def)
  next
    assume g: "\<not> perm_greater (col s) p n"
      and i: "ismax p n s = (True, s\<lparr>newgroupsize := newgroupsize s + 1\<rparr>)"
    with Cons.prems Cons.IH [of "s\<lparr>newgroupsize := newgroupsize s + 1\<rparr>"] show ?thesis
      by (auto simp: test_post_def testmax_def)
  qed
qed

lemma fulltest_post:
  assumes "grp = p0 # ps"
  shows "test_post ps n s (fst (fulltest grp n s)) (snd (fulltest grp n s))"
proof -
  let ?s0 = "s\<lparr>newgroupsize := 1, first := False\<rparr>"
  have "fulltest grp n s = (fst (allgroup2 ps n ?s0) = 0, snd (allgroup2 ps n ?s0))"
    using assms by (simp add: fulltest_def testmax_def split: prod.splits)
  moreover have "test_post ps n ?s0 (fst (allgroup2 ps n ?s0) = 0) (snd (allgroup2 ps n ?s0))"
    by (rule allgroup2_post) simp
  ultimately show ?thesis
    by (simp add: test_post_def)
qed


text \<open>
  What the search may rely on: the list of group elements starts with the identity,
  \<^verbatim>\<open>groupsize\<close> is its length unless it is 0 (a group too large for the counter), and a
  remembered rejection is one of its elements after the first.
\<close>

definition group_ok :: "perm list \<Rightarrow> nat \<Rightarrow> gstate \<Rightarrow> bool" where
  "group_ok grp n s =
     (grp \<noteq> [] \<and> (\<forall>i<n. hd grp i = i)
      \<and> (groupsize s \<noteq> 0 \<longrightarrow> length grp = groupsize s)
      \<and> (lastrejok s \<longrightarrow> (\<exists>p\<in>set (tl grp). \<forall>i<n. lastreject s i = p i)))"

definition accept_post :: "perm list \<Rightarrow> nat \<Rightarrow> gstate \<Rightarrow> bool \<Rightarrow> gstate \<Rightarrow> bool" where
  "accept_post grp n s a s' =
     (obs_eq s s' \<and> col s' = col s \<and> group_ok grp n s'
      \<and> (a \<longleftrightarrow> (\<forall>p\<in>set grp. \<not> perm_greater (col s) p n))
      \<and> (\<not> a \<longrightarrow> lastrejok s' \<and> (\<exists>p\<in>set (tl grp). \<exists>f. (\<forall>i<n. lastreject s' i = p i)
                \<and> rejects (col s) p n f \<and> fail_level s' = int f)))"

lemma identity_not_greater: "\<forall>i<n. p i = i \<Longrightarrow> \<not> perm_greater c p n"
  by (auto simp: perm_greater_def)

lemma test_post_accept_post:
  assumes ok: "group_ok grp n s" and g: "grp = p0 # ps"
    and s1: "obs_eq s s1" "col s1 = col s" "lastreject s1 = lastreject s" "lastrejok s1 = lastrejok s"
    and tp: "test_post ps n s1 a s'"
  shows "accept_post grp n s a s'"
proof -
  have id: "\<not> perm_greater (col s) p0 n"
    using ok g by (intro identity_not_greater) (simp add: group_ok_def)
  have gs: "groupsize s' = groupsize s"
    using tp s1 by (simp add: test_post_def obs_eq_def)
  show ?thesis
    unfolding accept_post_def
  proof (intro conjI impI)
    show "obs_eq s s'" using tp s1(1) by (auto simp: test_post_def intro: obs_eq_trans)
    show "col s' = col s" using tp s1(2) by (simp add: test_post_def)
    show "a \<longleftrightarrow> (\<forall>p\<in>set grp. \<not> perm_greater (col s) p n)"
      using tp s1(2) id g by (simp add: test_post_def)
    show "group_ok grp n s'"
    proof (cases a)
      case True
      with tp s1 ok gs show ?thesis by (simp add: test_post_def group_ok_def)
    next
      case False
      with tp s1 ok gs g show ?thesis by (auto simp: test_post_def group_ok_def)
    qed
  next
    assume "\<not> a"
    with tp s1 g show "lastrejok s'" by (simp add: test_post_def)
    from \<open>\<not> a\<close> tp s1 g
    show "\<exists>p\<in>set (tl grp). \<exists>f. (\<forall>i<n. lastreject s' i = p i) \<and> rejects (col s) p n f
            \<and> fail_level s' = int f"
      by (simp add: test_post_def)
  qed
qed

lemma accept_test_post:
  assumes ok: "group_ok grp n s"
  shows "accept_post grp n s (fst (accept_test (Some grp) n s)) (snd (accept_test (Some grp) n s))"
proof -
  from ok obtain p0 ps where g: "grp = p0 # ps"
    by (cases grp) (auto simp: group_ok_def)
  have id: "\<not> perm_greater (col s) p0 n"
    using ok g by (intro identity_not_greater) (simp add: group_ok_def)
  show ?thesis
  proof (cases "groupsize s = 1")
    case True
    with ok g have "ps = []" by (simp add: group_ok_def)
    with True ok g id show ?thesis
      by (simp add: accept_test_def accept_post_def)
  next
    case gs1: False
    show ?thesis
    proof (cases "lastrejok s")
      case False
      then have e: "accept_test (Some grp) n s = fulltest grp n s"
        using gs1 by (simp add: accept_test_def)
      show ?thesis unfolding e
        by (rule test_post_accept_post [OF ok g _ _ _ _ fulltest_post [OF g]]) simp_all
    next
      case True
      with ok g obtain q where q: "q \<in> set ps" "\<forall>i<n. lastreject s i = q i"
        by (auto simp: group_ok_def)
      have "(\<exists>f. rejects (col s) (lastreject s) n f
                \<and> ismax (lastreject s) n s = (False, s\<lparr>fail_level := int f\<rparr>))
          \<or> (\<not> perm_greater (col s) (lastreject s) n
              \<and> (\<exists>s1. ismax (lastreject s) n s = (True, s1) \<and> obs_eq s s1 \<and> col s1 = col s
                    \<and> lastreject s1 = lastreject s \<and> lastrejok s1 = lastrejok s))"
        using ismax_cases [of s "lastreject s" n] by auto
      then show ?thesis
      proof (elim disjE exE conjE)
        fix f assume r: "rejects (col s) (lastreject s) n f"
          and i: "ismax (lastreject s) n s = (False, s\<lparr>fail_level := int f\<rparr>)"
        from r q(2) have rq: "rejects (col s) q n f"
          using rejects_cong [of n "lastreject s" q] by simp
        then have "perm_greater (col s) q n" by (rule rejects_perm_greater)
        with True gs1 i rq q g ok show ?thesis
          by (auto simp: accept_test_def accept_post_def group_ok_def)
      next
        fix s1
        assume ng: "\<not> perm_greater (col s) (lastreject s) n"
          and i: "ismax (lastreject s) n s = (True, s1)"
          and s1: "obs_eq s s1" "col s1 = col s" "lastreject s1 = lastreject s"
                  "lastrejok s1 = lastrejok s"
        from ng have nq: "\<not> perm_greater (col s) q n"
          using perm_greater_cong [of n "lastreject s" q] q(2) by simp
        have gs: "groupsize s1 = groupsize s" using s1(1) by (simp add: obs_eq_def)
        show ?thesis
        proof (cases "groupsize s = 2")
          case two: True
          with ok g q have "ps = [q]" by (cases ps) (auto simp: group_ok_def)
          with two True gs1 i gs s1 g id nq ok show ?thesis
            by (simp add: accept_test_def accept_post_def group_ok_def)
        next
          case False
          then have e: "accept_test (Some grp) n s = fulltest grp n s1"
            using True gs1 i gs by (simp add: accept_test_def)
          show ?thesis unfolding e
            by (rule test_post_accept_post [OF ok g s1 fulltest_post [OF g]])
        qed
      qed
    qed
  qed
qed


text \<open>
  A colouring is canonical when no element of the group permutes it to a
  lexicographically greater one.
\<close>

definition canonical :: "(nat \<Rightarrow> int) \<Rightarrow> perm list \<Rightarrow> nat \<Rightarrow> bool" where
  "canonical c grp n =
     (\<forall>p\<in>set grp. lex_le (map (\<lambda>i. c (p i)) [0..<n]) (map c [0..<n]))"

lemma canonical_iff: "canonical c grp n \<longleftrightarrow> (\<forall>p\<in>set grp. \<not> perm_greater c p n)"
  by (simp add: canonical_def not_perm_greater_lex_le)

lemma filter_and_output_frame:
  assumes "filter_and_output g c n s = Some s'"
  shows "\<exists>o' t'. s' = s\<lparr>out := o', totalCount := t'\<rparr>"
proof -
  have "s' = s \<or> s' = s\<lparr>totalCount := totalCount s + 1\<rparr>
      \<or> s' = s\<lparr>out := out s @ [(extended_digraph g c n, n + 1)], totalCount := totalCount s + 1\<rparr>"
    using assms
    by (simp add: filter_and_output_def split: option.splits bool.splits if_splits)
  then show ?thesis
  proof (elim disjE)
    assume "s' = s"
    then show ?thesis
      by (intro exI [of _ "out s"] exI [of _ "totalCount s"]) simp
  next
    assume "s' = s\<lparr>totalCount := totalCount s + 1\<rparr>"
    then show ?thesis
      by (intro exI [of _ "out s"] exI [of _ "totalCount s + 1"]) simp
  next
    assume "s' = s\<lparr>out := out s @ [(extended_digraph g c n, n + 1)],
                   totalCount := totalCount s + 1\<rparr>"
    then show ?thesis by blast
  qed
qed

text \<open>
  Claim C2. With the group given as above, \<^verbatim>\<open>trythisone\<close> accepts the colouring in the
  buffer exactly when it is canonical, that is when for every element \<open>p\<close> of the group
  the colouring permuted by \<open>p\<close> is lexicographically at most the colouring. It hands
  the colouring to the filter and returns \<open>n - 1\<close> when it is canonical; otherwise it
  leaves the history, the counter and the output as they were.
\<close>

theorem trythisone_accepts_iff_maximal:
  assumes "group_ok grp n s"
  shows "(fst (accept_test (Some grp) n (s\<lparr>newgroupsize := 1\<rparr>)) \<longleftrightarrow> canonical (col s) grp n)
     \<and> (case trythisone (Some grp) g n s of
          None \<Rightarrow> canonical (col s) grp n
        | Some (r, s') \<Rightarrow>
            if canonical (col s) grp n
            then passed s' = passed s @ [map (col s) [0..<n]] \<and> r = int n - 1
            else passed s' = passed s \<and> totalCount s' = totalCount s \<and> out s' = out s)"
proof -
  let ?s0 = "s\<lparr>newgroupsize := 1\<rparr>"
  obtain a s1 where at: "accept_test (Some grp) n ?s0 = (a, s1)"
    by (cases "accept_test (Some grp) n ?s0")
  have "group_ok grp n ?s0" using assms by (simp add: group_ok_def)
  from accept_test_post [OF this] at have ap: "accept_post grp n ?s0 a s1" by simp
  then have a: "a \<longleftrightarrow> canonical (col s) grp n"
    and c: "col s1 = col s" and o: "obs_eq s s1"
    by (simp_all add: accept_post_def canonical_iff)
  show ?thesis
  proof (cases a)
    case False
    with at a o show ?thesis
      by (simp add: trythisone_def obs_eq_def)
  next
    case True
    show ?thesis
    proof (cases "filter_and_output g (col s1) n (s1\<lparr>passed := passed s1 @ [map (col s1) [0..<n]]\<rparr>)")
      case None
      with True at a show ?thesis by (simp add: trythisone_def)
    next
      case (Some s2)
      from filter_and_output_frame [OF Some] have "passed s2 = passed s1 @ [map (col s1) [0..<n]]"
        by auto
      with Some True at a c o show ?thesis
        by (simp add: trythisone_def obs_eq_def)
    qed
  qed
qed

definition swap01 :: perm where
  "swap01 i = (if i = 0 then 1 else if i = 1 then 0 else i)"

theorem trythisone_accepts_iff_maximal_witness:
  "\<exists>s'. trythisone (Some [\<lambda>i. i, swap01]) [0, 0] 2
            ((init_state False False False)\<lparr>groupsize := 2, col := (\<lambda>i. if i = 0 then 1 else 0)\<rparr>)
          = Some (1, s')
       \<and> passed s' = [[1, 0]]"
proof -
  let ?s = "(init_state False False False)\<lparr>groupsize := 2, col := (\<lambda>i. if i = 0 then 1 else 0)\<rparr>"
  have ok: "group_ok [\<lambda>i. i, swap01] 2 ?s"
    by (simp add: group_ok_def init_state_def)
  have lt2: "i < 2 \<longleftrightarrow> i = 0 \<or> i = 1" for i :: nat by auto
  have can: "canonical (col ?s) [\<lambda>i. i, swap01] 2"
    by (auto simp: canonical_iff perm_greater_def swap01_def lt2)
  have "\<exists>r s'. trythisone (Some [\<lambda>i. i, swap01]) [0, 0] 2 ?s = Some (r, s')"
    apply (simp add: init_state_def trythisone_def accept_test_def fulltest_def testmax_def ismax_def)
    apply (simp add: ismax_loop.simps swap01_def)
    apply (simp add: filter_and_output_def leaves_coloured.simps)
    done
  then obtain r s' where t: "trythisone (Some [\<lambda>i. i, swap01]) [0, 0] 2 ?s = Some (r, s')"
    by (elim exE)
  have "case Some (r, s') of None \<Rightarrow> canonical (col ?s) [\<lambda>i. i, swap01] 2
        | Some (r, s') \<Rightarrow>
            if canonical (col ?s) [\<lambda>i. i, swap01] 2
            then passed s' = passed ?s @ [map (col ?s) [0..<2]] \<and> r = int 2 - 1
            else passed s' = passed ?s \<and> totalCount s' = totalCount ?s \<and> out s' = out ?s"
    using trythisone_accepts_iff_maximal [OF ok, of "[0, 0]", THEN conjunct2] unfolding t .
  then have "passed s' = passed ?s @ [map (col ?s) [0..<2]] \<and> r = int 2 - 1"
    using can by (simp only: option.case prod.case if_True)
  then have "passed s' = [[1, 0]]" "r = 1"
    by (simp_all add: init_state_def upt_2)
  with t show ?thesis by (intro exI [of _ s']) simp
qed

section \<open>The decomposer: Tarjan's algorithm partitions the vertices\<close>

text \<open>
  A digraph as the reader delivers it: \<open>n\<close> rows, at most \<open>MAXN\<close> of them, each naming
  vertices below \<open>n\<close>. Then the views of the state that the proof speaks about: the
  stack as a list (top first), the discovery index and the lowlink of a vertex, the
  recorded components as sets, and their union.
\<close>

definition wf_graph :: "graph \<Rightarrow> nat \<Rightarrow> bool" where
  "wf_graph g n = (length g = n \<and> n \<le> MAXN \<and> (\<forall>v<n. \<forall>w\<in>elems (g ! v). w < n))"

definition stk :: "gstate \<Rightarrow> nat list" where
  "stk s = map (stack s) (rev [0..<nat (stack_top s + 1)])"

definition visited :: "gstate \<Rightarrow> nat \<Rightarrow> bool" where
  "visited s v = (index (vinfos s v) \<noteq> UNDEFINED)"

definition scc_set :: "gstate \<Rightarrow> nat \<Rightarrow> nat set" where
  "scc_set s i = elems (sccVertices (sccinfos s i))"

definition closed_set :: "gstate \<Rightarrow> nat set" where
  "closed_set s = (\<Union>i<currentSCC s. scc_set s i)"

definition no_exit :: "graph \<Rightarrow> nat set \<Rightarrow> bool" where
  "no_exit g S = (\<forall>v\<in>S. elems (g ! v) \<subseteq> S)"

definition idx :: "gstate \<Rightarrow> nat \<Rightarrow> int" where
  "idx s v = index (vinfos s v)"

definition low :: "gstate \<Rightarrow> nat \<Rightarrow> int" where
  "low s v = lowlink (vinfos s v)"

lemma stk_push:
  assumes "- 1 \<le> stack_top s" "stack_top s + 1 < int MAXN"
  shows "\<exists>s'. push x s = Some s' \<and> stk s' = x # stk s \<and> stack_top s' = stack_top s + 1
     \<and> s' = s\<lparr>stack_top := stack_top s', stack := stack s'\<rparr>"
proof -
  let ?k = "nat (stack_top s + 1)"
  let ?s' = "s\<lparr>stack_top := stack_top s + 1, stack := (stack s)(?k := x)\<rparr>"
  have p: "push x s = Some ?s'" using assms by (simp add: push_def)
  have k: "nat (stack_top (?s') + 1) = Suc ?k" using assms by simp
  have "stk ?s' = map (stack ?s') (rev [0..<Suc ?k])"
    unfolding stk_def k ..
  then have "stk ?s' = x # stk s"
    by (simp add: stk_def)
  with p show ?thesis by simp
qed

lemma stk_pop:
  assumes "stk s = x # xs" "- 1 \<le> stack_top s"
  shows "\<exists>s'. pop s = Some (x, s') \<and> stk s' = xs \<and> stack_top s' = stack_top s - 1
     \<and> s' = s\<lparr>stack_top := stack_top s - 1\<rparr> \<and> - 1 \<le> stack_top s'"
proof -
  have pos: "0 \<le> stack_top s"
  proof (rule ccontr)
    assume "\<not> 0 \<le> stack_top s"
    then have "stk s = []" by (simp add: stk_def)
    with assms show False by simp
  qed
  define k where "k = nat (stack_top s)"
  have k: "nat (stack_top s + 1) = Suc k" "nat (stack_top s) = k"
    using pos by (simp_all add: k_def)
  have k': "nat (stack_top s - 1 + 1) = k" using k pos by simp
  from assms(1) have "stack s k = x" "map (stack s) (rev [0..<k]) = xs"
    by (simp_all add: stk_def k)
  then show ?thesis
    using pos k by (simp add: pop_def stk_def k')
qed

lemma length_stk: "- 1 \<le> stack_top s \<Longrightarrow> int (length (stk s)) = stack_top s + 1"
  by (simp add: stk_def)


definition ons :: "gstate \<Rightarrow> nat \<Rightarrow> bool" where
  "ons s v = onstack (vinfos s v)"

definition dsc :: "gstate \<Rightarrow> nat \<Rightarrow> nat set" where
  "dsc s v = elems (descendents (vinfos s v))"

definition leaf :: "gstate \<Rightarrow> nat \<Rightarrow> bool" where
  "leaf s i = isLeaf (sccinfos s i)"

definition sz :: "gstate \<Rightarrow> nat \<Rightarrow> nat" where
  "sz s i = sccSize (sccinfos s i)"

lemma visited_idx: "visited s v \<longleftrightarrow> idx s v \<noteq> - 1"
  by (simp add: visited_def idx_def UNDEFINED_def)

lemma closed_set_iff: "x \<in> closed_set s \<longleftrightarrow> (\<exists>i<currentSCC s. x \<in> scc_set s i)"
  by (auto simp: closed_set_def)

lemmas obs_defs = stk_def idx_def low_def ons_def dsc_def leaf_def sz_def scc_set_def

lemma visit_obs [simp]:
  "stk (visit v s) = stk s" "stack_top (visit v s) = stack_top s"
  "idx (visit v s) = (idx s)(v := vertex_index s)"
  "low (visit v s) = (low s)(v := vertex_index s)"
  "ons (visit v s) = ons s" "dsc (visit v s) = dsc s"
  "scc_set (visit v s) = scc_set s" "leaf (visit v s) = leaf s" "sz (visit v s) = sz s"
  "currentSCC (visit v s) = currentSCC s" "isFirstSCC (visit v s) = isFirstSCC s"
  "vertex_index (visit v s) = int32 (vertex_index s + 1)"
  by (auto simp: visit_def obs_defs fun_eq_iff)

lemma set_onstack_obs [simp]:
  "stk (set_onstack v s) = stk s" "stack_top (set_onstack v s) = stack_top s"
  "idx (set_onstack v s) = idx s" "low (set_onstack v s) = low s"
  "ons (set_onstack v s) = (ons s)(v := True)" "dsc (set_onstack v s) = dsc s"
  "scc_set (set_onstack v s) = scc_set s" "leaf (set_onstack v s) = leaf s"
  "sz (set_onstack v s) = sz s"
  "currentSCC (set_onstack v s) = currentSCC s" "isFirstSCC (set_onstack v s) = isFirstSCC s"
  "vertex_index (set_onstack v s) = vertex_index s"
  by (auto simp: set_onstack_def obs_defs fun_eq_iff)

lemma add_descendent_obs [simp]:
  "stk (add_descendent v w s) = stk s" "stack_top (add_descendent v w s) = stack_top s"
  "idx (add_descendent v w s) = idx s" "low (add_descendent v w s) = low s"
  "ons (add_descendent v w s) = ons s"
  "w < 32 \<Longrightarrow> dsc (add_descendent v w s) = (dsc s)(v := insert w (dsc s v))"
  "scc_set (add_descendent v w s) = scc_set s" "leaf (add_descendent v w s) = leaf s"
  "sz (add_descendent v w s) = sz s"
  "currentSCC (add_descendent v w s) = currentSCC s"
  "isFirstSCC (add_descendent v w s) = isFirstSCC s"
  "vertex_index (add_descendent v w s) = vertex_index s"
  by (auto simp: add_descendent_def obs_defs fun_eq_iff elems_ADDELEMENT)

lemma lower_obs [simp]:
  "stk (lower v x s) = stk s" "stack_top (lower v x s) = stack_top s"
  "idx (lower v x s) = idx s"
  "low (lower v x s) = (low s)(v := min (low s v) x)"
  "ons (lower v x s) = ons s" "dsc (lower v x s) = dsc s"
  "scc_set (lower v x s) = scc_set s" "leaf (lower v x s) = leaf s" "sz (lower v x s) = sz s"
  "currentSCC (lower v x s) = currentSCC s" "isFirstSCC (lower v x s) = isFirstSCC s"
  "vertex_index (lower v x s) = vertex_index s"
  by (auto simp: lower_def obs_defs fun_eq_iff)

lemma visited_obs [simp]:
  "visited (visit v s) = (visited s)(v := vertex_index s \<noteq> - 1)"
  "visited (set_onstack v s) = visited s"
  "visited (add_descendent v w s) = visited s"
  "visited (lower v x s) = visited s"
  by (auto simp: fun_eq_iff visited_idx)

lemma closed_set_obs [simp]:
  "closed_set (visit v s) = closed_set s"
  "closed_set (set_onstack v s) = closed_set s"
  "closed_set (add_descendent v w s) = closed_set s"
  "closed_set (lower v x s) = closed_set s"
  by (simp_all add: closed_set_def)

lemma push_obs:
  assumes "push x s = Some s'"
  shows "idx s' = idx s" "low s' = low s" "ons s' = ons s" "dsc s' = dsc s"
    "scc_set s' = scc_set s" "leaf s' = leaf s" "sz s' = sz s"
    "currentSCC s' = currentSCC s" "isFirstSCC s' = isFirstSCC s"
    "vertex_index s' = vertex_index s" "visited s' = visited s" "closed_set s' = closed_set s"
  using assms
  by (auto simp: push_def obs_defs fun_eq_iff visited_def closed_set_def split: if_splits)

text \<open>
  The invariant of the traversal, in six parts: the stack (distinct vertices, flagged
  \<^verbatim>\<open>onstack\<close>, indices decreasing from the top); visited vertices are on the stack or
  in a closed component; lowlinks and indices are bounded; the records up to
  \<^verbatim>\<open>currentSCC\<close> are non-empty, disjoint and sized, the later ones untouched; the leaf
  flags say that no edge leaves the component; unvisited vertices have no descendants.
\<close>

definition I1 :: "nat \<Rightarrow> gstate \<Rightarrow> bool" where
  "I1 n s = (- 1 \<le> stack_top s \<and> distinct (stk s) \<and> set (stk s) \<subseteq> {..<n}
     \<and> (\<forall>v<n. ons s v \<longleftrightarrow> v \<in> set (stk s))
     \<and> sorted_wrt (\<lambda>a b. idx s b < idx s a) (stk s))"

definition I2 :: "nat \<Rightarrow> gstate \<Rightarrow> bool" where
  "I2 n s = ((\<forall>v<n. visited s v \<longleftrightarrow> v \<in> set (stk s) \<union> closed_set s)
     \<and> set (stk s) \<inter> closed_set s = {} \<and> closed_set s \<subseteq> {..<n})"

definition I3 :: "nat \<Rightarrow> gstate \<Rightarrow> bool" where
  "I3 n s = (0 \<le> vertex_index s
     \<and> vertex_index s + int (card {x. x < n \<and> \<not> visited s x}) \<le> INT_MAX
     \<and> (\<forall>v<n. visited s v \<longrightarrow> low s v \<le> idx s v \<and> idx s v < vertex_index s))"

definition I4 :: "nat \<Rightarrow> gstate \<Rightarrow> bool" where
  "I4 n s = ((\<forall>i<currentSCC s. scc_set s i \<noteq> {} \<and> sz s i = card (scc_set s i))
     \<and> (\<forall>i<currentSCC s. \<forall>j<currentSCC s. i \<noteq> j \<longrightarrow> scc_set s i \<inter> scc_set s j = {})
     \<and> (\<forall>i. currentSCC s \<le> i \<and> i < n \<longrightarrow> scc_set s i = {} \<and> \<not> leaf s i)
     \<and> currentSCC s + length (stk s) \<le> card {v. v < n \<and> visited s v}
     \<and> (isFirstSCC s \<longleftrightarrow> currentSCC s = 0))"

definition I5 :: "graph \<Rightarrow> nat \<Rightarrow> gstate \<Rightarrow> bool" where
  "I5 g n s = ((\<forall>i<currentSCC s. leaf s i \<longleftrightarrow> no_exit g (scc_set s i))
     \<and> (0 < currentSCC s \<longrightarrow> leaf s 0)
     \<and> (\<forall>v<n. elems (g ! v) = {} \<and> v \<in> closed_set s \<longrightarrow> (\<exists>i<currentSCC s. scc_set s i = {v})))"

definition I6 :: "nat \<Rightarrow> gstate \<Rightarrow> bool" where
  "I6 n s = (\<forall>v<n. \<not> visited s v \<longrightarrow> dsc s v = {})"

definition Inv :: "graph \<Rightarrow> nat \<Rightarrow> gstate \<Rightarrow> bool" where
  "Inv g n s = (I1 n s \<and> I2 n s \<and> I3 n s \<and> I4 n s \<and> I5 g n s \<and> I6 n s)"

text \<open>
  What a call of \<^verbatim>\<open>strongconnect\<close> leaves alone (\<open>frame\<close>), when a vertex is finished
  (\<open>fin\<close>), the successors handled when the loop stands at \<open>w\<close> (\<open>done_set\<close>), the
  invariant of the loop over the successors of \<open>v\<close> (\<open>LI\<close>) and what a call for \<open>v\<close>
  guarantees (\<open>Post\<close>): either the component of \<open>v\<close> was closed and the stack is as
  before, or \<open>v\<close> stays on the stack with the lowlink of a vertex below it.
\<close>

definition frame :: "nat \<Rightarrow> gstate \<Rightarrow> gstate \<Rightarrow> bool" where
  "frame n s0 s =
     ((\<forall>x<n. visited s0 x \<longrightarrow> idx s x = idx s0 x \<and> low s x = low s0 x
                 \<and> ons s x = ons s0 x \<and> dsc s x = dsc s0 x)
      \<and> (\<forall>i<currentSCC s0. scc_set s i = scc_set s0 i \<and> leaf s i = leaf s0 i
                 \<and> sz s i = sz s0 i)
      \<and> currentSCC s0 \<le> currentSCC s \<and> vertex_index s0 \<le> vertex_index s)"

definition fin :: "graph \<Rightarrow> gstate \<Rightarrow> nat \<Rightarrow> bool" where
  "fin g s w = (dsc s w = elems (g ! w) \<and> (\<forall>y\<in>elems (g ! w). visited s y))"

definition done_set :: "graph \<Rightarrow> nat \<Rightarrow> int \<Rightarrow> nat set" where
  "done_set g v w = {x \<in> elems (g ! v). w = - 1 \<or> int x < w}"

definition Jcond :: "graph \<Rightarrow> gstate \<Rightarrow> nat \<Rightarrow> nat list \<Rightarrow> nat list \<Rightarrow> nat set \<Rightarrow> bool" where
  "Jcond g s v T S0 D =
     ((\<forall>x\<in>set T. \<forall>y\<in>elems (g ! x). y \<in> set S0 \<longrightarrow> low s v \<le> idx s y)
      \<and> (\<forall>y\<in>D. y \<in> set S0 \<longrightarrow> low s v \<le> idx s y))"

definition LI :: "graph \<Rightarrow> nat \<Rightarrow> nat \<Rightarrow> gstate \<Rightarrow> int \<Rightarrow> gstate \<Rightarrow> bool" where
  "LI g n v s0 w s =
     (Inv g n s \<and> frame n s0 s \<and> \<not> visited s0 v \<and> visited s v \<and> idx s v = vertex_index s0
      \<and> (\<exists>T. stk s = T @ v # stk s0
             \<and> (done_set g v w = {} \<longrightarrow> T = [] \<and> low s v = idx s v)
             \<and> (\<forall>x\<in>set T. elems (g ! x) \<noteq> {} \<and> \<not> visited s0 x)
             \<and> (currentSCC s = 0 \<longrightarrow> Jcond g s v T (stk s0) (done_set g v w)))
      \<and> (\<forall>x<n. visited s x \<and> \<not> visited s0 x \<and> x \<noteq> v \<longrightarrow> fin g s x)
      \<and> dsc s v = done_set g v w \<and> (\<forall>y\<in>done_set g v w. visited s y)
      \<and> (low s v = idx s v \<or> (\<exists>u\<in>set (stk s0). low s v = idx s u)))"

definition Post :: "graph \<Rightarrow> nat \<Rightarrow> nat \<Rightarrow> gstate \<Rightarrow> gstate \<Rightarrow> bool" where
  "Post g n v s0 s' =
     (Inv g n s' \<and> frame n s0 s' \<and> visited s' v \<and> idx s' v = vertex_index s0
      \<and> (\<forall>w<n. visited s' w \<and> \<not> visited s0 w \<longrightarrow> fin g s' w)
      \<and> ((stk s' = stk s0 \<and> low s' v = idx s' v)
         \<or> (\<exists>T. stk s' = T @ v # stk s0
               \<and> (\<exists>u\<in>set (stk s0). low s' v = idx s' u)
               \<and> (\<forall>x\<in>set (T @ [v]). elems (g ! x) \<noteq> {} \<and> \<not> visited s0 x)
               \<and> (currentSCC s' = 0 \<longrightarrow>
                    (\<forall>x\<in>set (T @ [v]). \<forall>y\<in>elems (g ! x). y \<in> set (stk s0)
                        \<longrightarrow> low s' v \<le> idx s' y)))))"

definition unvisited :: "nat \<Rightarrow> gstate \<Rightarrow> nat set" where
  "unvisited n s = {x. x < n \<and> \<not> visited s x}"

lemma frame_refl [simp]: "frame n s s"
  by (simp add: frame_def)

lemma frame_trans: "frame n s0 s1 \<Longrightarrow> frame n s1 s2 \<Longrightarrow> frame n s0 s2"
  unfolding frame_def visited_idx
  by (intro conjI allI impI) (metis order_trans less_le_trans)+

lemma frame_visited: "frame n s0 s \<Longrightarrow> x < n \<Longrightarrow> visited s0 x \<Longrightarrow> visited s x"
  by (auto simp: frame_def visited_idx)

lemma unvisited_mono: "frame n s0 s \<Longrightarrow> unvisited n s \<subseteq> unvisited n s0"
  by (auto simp: unvisited_def dest: frame_visited)

lemma finite_unvisited [simp]: "finite (unvisited n s)"
  by (simp add: unvisited_def)

lemma done_set_next:
  assumes "w' \<in> elems (g ! v)"
  shows "done_set g v (nextelement (g ! v) (int w')) = insert w' (done_set g v (int w'))"
proof (cases rule: nextelement_cases [of "g ! v" "int w'"])
  case 1
  then show ?thesis using assms by (auto simp: done_set_def)
next
  case (2 j)
  have "x < j \<longleftrightarrow> x = w' \<or> x < w'" if "x \<in> elems (g ! v)" for x
  proof (cases "w' < x")
    case True
    with 2(4) that have "j \<le> x" by simp
    with True show ?thesis by simp
  next
    case False
    with 2(3) show ?thesis by auto
  qed
  with 2(1,3) assms show ?thesis by (auto simp: done_set_def)
qed

lemma done_set_first: "done_set g v (nextelement (g ! v) (- 1)) = {}"
proof (cases rule: nextelement_cases [of "g ! v" "- 1"])
  case 1
  then show ?thesis by (auto simp: done_set_def)
next
  case (2 j)
  then show ?thesis by (auto simp: done_set_def)
qed

lemma done_set_last: "done_set g v (- 1) = elems (g ! v)"
  by (auto simp: done_set_def)

lemma sorted_below:
  assumes "sorted_wrt (\<lambda>a b. f b < f a) (T @ v # S)" "x \<in> set (T @ v # S)" "f x < (f v :: int)"
  shows "x \<in> set S"
  using assms by (auto simp: sorted_wrt_append)

lemma Inv_add_descendent:
  assumes "Inv g n s" "visited s v" "w < 32"
  shows "Inv g n (add_descendent v w s)"
proof -
  let ?s' = "add_descendent v w s"
  have "I6 n ?s'"
    using assms by (auto simp: Inv_def I6_def)
  moreover have "I1 n ?s' = I1 n s" "I2 n ?s' = I2 n s" "I3 n ?s' = I3 n s"
    "I4 n ?s' = I4 n s" "I5 g n ?s' = I5 g n s"
    by (simp_all add: I1_def I2_def I3_def I4_def I5_def)
  ultimately show ?thesis
    using assms(1) by (simp add: Inv_def)
qed

lemma Inv_lower:
  assumes "Inv g n s"
  shows "Inv g n (lower v x s)"
proof -
  let ?s' = "lower v x s"
  have "I3 n ?s'"
    using assms by (auto simp: Inv_def I3_def)
  moreover have "I1 n ?s' = I1 n s" "I2 n ?s' = I2 n s" "I6 n ?s' = I6 n s"
    "I4 n ?s' = I4 n s" "I5 g n ?s' = I5 g n s"
    by (simp_all add: I1_def I2_def I6_def I4_def I5_def)
  ultimately show ?thesis
    using assms(1) by (simp add: Inv_def)
qed

lemma frame_add_descendent:
  assumes "frame n s0 s" "\<not> visited s0 v" "w < 32"
  shows "frame n s0 (add_descendent v w s)"
  using assms by (auto simp: frame_def)

lemma frame_lower:
  assumes "frame n s0 s" "\<not> visited s0 v"
  shows "frame n s0 (lower v x s)"
  using assms by (auto simp: frame_def)

lemma LI_D:
  assumes "LI g n v s0 w s"
  shows "Inv g n s" "frame n s0 s" "\<not> visited s0 v" "visited s v" "idx s v = vertex_index s0"
    "\<forall>x<n. visited s x \<and> \<not> visited s0 x \<and> x \<noteq> v \<longrightarrow> fin g s x"
    "dsc s v = done_set g v w" "\<forall>y\<in>done_set g v w. visited s y"
    "low s v = idx s v \<or> (\<exists>u\<in>set (stk s0). low s v = idx s u)"
  using assms unfolding LI_def by blast+

lemma LI_T:
  assumes "LI g n v s0 w s"
  shows "\<exists>T. stk s = T @ v # stk s0
    \<and> (done_set g v w = {} \<longrightarrow> T = [] \<and> low s v = idx s v)
    \<and> (\<forall>x\<in>set T. elems (g ! x) \<noteq> {} \<and> \<not> visited s0 x)
    \<and> (currentSCC s = 0 \<longrightarrow> Jcond g s v T (stk s0) (done_set g v w))"
  using assms unfolding LI_def by blast

lemma LI_step_closed:
  assumes li: "LI g n v s0 (int w') s" and w: "w' \<in> elems (g ! v)" "w' < n" "v < n"
    and vis: "visited s w'" and nons: "\<not> ons s w'"
  shows "LI g n v s0 (nextelement (g ! v) (int w')) (add_descendent v w' s)"
proof -
  let ?s' = "add_descendent v w' s"
  let ?D = "done_set g v (int w')"
  note d = LI_D [OF li]
  from LI_T [OF li] obtain T where T: "stk s = T @ v # stk s0"
    "\<forall>x\<in>set T. elems (g ! x) \<noteq> {} \<and> \<not> visited s0 x"
    "currentSCC s = 0 \<longrightarrow> Jcond g s v T (stk s0) ?D"
    by (elim exE conjE)
  have w32: "w' < 32" using w(1) by (rule elems_less)
  have dn: "done_set g v (nextelement (g ! v) (int w')) = insert w' ?D"
    using w(1) by (rule done_set_next)
  have notstk: "w' \<notin> set (stk s)"
    using d(1) nons w(2) by (auto simp: Inv_def I1_def)
  have fin_eq: "fin g ?s' x = fin g s x" if "x \<noteq> v" for x
    using that w32 by (simp add: fin_def)
  show ?thesis
    unfolding LI_def dn
  proof (intro conjI)
    show "Inv g n ?s'" using d(1,4) w32 by (rule Inv_add_descendent)
    show "frame n s0 ?s'" using d(2,3) w32 by (rule frame_add_descendent)
    show "\<not> visited s0 v" by fact
    show "visited ?s' v" using d(4) by simp
    show "idx ?s' v = vertex_index s0" using d(5) by simp
    show "\<exists>T. stk ?s' = T @ v # stk s0
         \<and> (insert w' ?D = {} \<longrightarrow> T = [] \<and> low ?s' v = idx ?s' v)
         \<and> (\<forall>x\<in>set T. elems (g ! x) \<noteq> {} \<and> \<not> visited s0 x)
         \<and> (currentSCC ?s' = 0 \<longrightarrow> Jcond g ?s' v T (stk s0) (insert w' ?D))"
    proof (intro exI [of _ T] conjI impI)
      show "stk ?s' = T @ v # stk s0" using T(1) by simp
      show "\<forall>x\<in>set T. elems (g ! x) \<noteq> {} \<and> \<not> visited s0 x" by fact
      assume "currentSCC ?s' = 0"
      with T(3) have "Jcond g s v T (stk s0) ?D" by simp
      moreover have "w' \<notin> set (stk s0)" using notstk T(1) by simp
      ultimately show "Jcond g ?s' v T (stk s0) (insert w' ?D)"
        by (auto simp: Jcond_def)
    qed simp_all
    show "\<forall>x<n. visited ?s' x \<and> \<not> visited s0 x \<and> x \<noteq> v \<longrightarrow> fin g ?s' x"
      using d(6) fin_eq by simp
    show "dsc ?s' v = insert w' ?D" using d(7) w32 by simp
    show "\<forall>y\<in>insert w' ?D. visited ?s' y" using d(8) vis by simp
    show "low ?s' v = idx ?s' v \<or> (\<exists>u\<in>set (stk s0). low ?s' v = idx ?s' u)"
      using d(9) by simp
  qed
qed

lemma LI_step_onstack:
  assumes li: "LI g n v s0 (int w') s" and w: "w' \<in> elems (g ! v)" "w' < n" "v < n"
    and vis: "visited s w'" and on: "ons s w'"
  shows "LI g n v s0 (nextelement (g ! v) (int w'))
           (lower v (idx s w') (add_descendent v w' s))"
proof -
  let ?s1 = "add_descendent v w' s"
  let ?s' = "lower v (idx s w') ?s1"
  let ?D = "done_set g v (int w')"
  note d = LI_D [OF li]
  from LI_T [OF li] obtain T where T: "stk s = T @ v # stk s0"
    "\<forall>x\<in>set T. elems (g ! x) \<noteq> {} \<and> \<not> visited s0 x"
    "currentSCC s = 0 \<longrightarrow> Jcond g s v T (stk s0) ?D"
    by (elim exE conjE)
  have w32: "w' < 32" using w(1) by (rule elems_less)
  have dn: "done_set g v (nextelement (g ! v) (int w')) = insert w' ?D"
    using w(1) by (rule done_set_next)
  have instk: "w' \<in> set (stk s)"
    using d(1) on w(2) by (auto simp: Inv_def I1_def)
  have srt: "sorted_wrt (\<lambda>a b. idx s b < idx s a) (T @ v # stk s0)"
    using d(1) T(1) by (simp add: Inv_def I1_def)
  have lowle: "low s v \<le> idx s v"
    using d(1,4) w(3) by (simp add: Inv_def I3_def)
  have fin_eq: "fin g ?s' x = fin g s x" if "x \<noteq> v" for x
    using that w32 by (simp add: fin_def)
  have low': "low ?s' = (low s)(v := min (low s v) (idx s w'))" by simp
  show ?thesis
    unfolding LI_def dn
  proof (intro conjI)
    show "Inv g n ?s'"
      by (intro Inv_lower Inv_add_descendent) fact+
    show "frame n s0 ?s'"
      by (intro frame_lower frame_add_descendent) fact+
    show "\<not> visited s0 v" by fact
    show "visited ?s' v" using d(4) by simp
    show "idx ?s' v = vertex_index s0" using d(5) by simp
    show "\<exists>T. stk ?s' = T @ v # stk s0
         \<and> (insert w' ?D = {} \<longrightarrow> T = [] \<and> low ?s' v = idx ?s' v)
         \<and> (\<forall>x\<in>set T. elems (g ! x) \<noteq> {} \<and> \<not> visited s0 x)
         \<and> (currentSCC ?s' = 0 \<longrightarrow> Jcond g ?s' v T (stk s0) (insert w' ?D))"
    proof (intro exI [of _ T] conjI impI)
      show "stk ?s' = T @ v # stk s0" using T(1) by simp
      show "\<forall>x\<in>set T. elems (g ! x) \<noteq> {} \<and> \<not> visited s0 x" by fact
      assume "currentSCC ?s' = 0"
      with T(3) have "Jcond g s v T (stk s0) ?D" by simp
      then show "Jcond g ?s' v T (stk s0) (insert w' ?D)"
        unfolding Jcond_def low' by (auto simp: min_le_iff_disj)
    qed simp_all
    show "\<forall>x<n. visited ?s' x \<and> \<not> visited s0 x \<and> x \<noteq> v \<longrightarrow> fin g ?s' x"
      using d(6) fin_eq by simp
    show "dsc ?s' v = insert w' ?D" using d(7) w32 by simp
    show "\<forall>y\<in>insert w' ?D. visited ?s' y" using d(8) vis by simp
    show "low ?s' v = idx ?s' v \<or> (\<exists>u\<in>set (stk s0). low ?s' v = idx ?s' u)"
    proof (cases "idx s w' < low s v")
      case False
      then have "min (low s v) (idx s w') = low s v" by simp
      with d(9) show ?thesis by simp
    next
      case True
      with lowle have "idx s w' < idx s v" by simp
      with srt instk T(1) have "w' \<in> set (stk s0)"
        using sorted_below [of "idx s" T v "stk s0" w'] by simp
      moreover have "min (low s v) (idx s w') = idx s w'" using True by simp
      ultimately show ?thesis by auto
    qed
  qed
qed

lemma card_visited_less:
  assumes "v < n" "\<not> visited s v"
  shows "card {x. x < n \<and> visited s x} < n"
proof -
  have "{x. x < n \<and> visited s x} \<subseteq> {..<n} - {v}" using assms by auto
  then have "card {x. x < n \<and> visited s x} \<le> card ({..<n} - {v})"
    by (intro card_mono) auto
  also have "\<dots> < n" using assms(1) by simp
  finally show ?thesis .
qed

lemma enter_LI:
  assumes wf: "wf_graph g n" and inv: "Inv g n s0" and v: "v < n" and nv: "\<not> visited s0 v"
  shows "\<exists>s1. push v (visit v s0) = Some s1
     \<and> LI g n v s0 (nextelement (g ! v) (- 1)) (set_onstack v s1)
     \<and> unvisited n (set_onstack v s1) = unvisited n s0 - {v}"
proof -
  from inv have i1: "I1 n s0" and i2: "I2 n s0" and i3: "I3 n s0" and i4: "I4 n s0"
    and i5: "I5 g n s0" and i6: "I6 n s0"
    by (simp_all add: Inv_def)
  have n32: "n \<le> 32" using wf by (simp add: wf_graph_def MAXN_def)
  have top: "- 1 \<le> stack_top s0" using i1 by (simp add: I1_def)
  have len: "length (stk s0) < n"
    using i4 card_visited_less [OF v nv] by (simp add: I4_def)
  then have room: "stack_top (visit v s0) + 1 < int MAXN"
    using length_stk [OF top] n32 by (simp add: MAXN_def)
  from stk_push [of "visit v s0" v, OF _ room] top obtain s1 where
    p: "push v (visit v s0) = Some s1" and st: "stk s1 = v # stk s0"
    and tp: "stack_top s1 = stack_top s0 + 1"
    by auto
  let ?s = "set_onstack v s1"
  note po = push_obs [OF p]
  have vi: "vertex_index s0 \<noteq> - 1" using i3 by (simp add: I3_def)
  have fu: "finite {x. x < n \<and> \<not> visited s0 x}" by simp
  have uv: "{x. x < n \<and> \<not> visited s0 x} = insert v {x. x < n \<and> \<not> ((visited s0)(v := True)) x}"
    using v nv by auto
  have cu: "card {x. x < n \<and> \<not> visited s0 x}
      = Suc (card {x. x < n \<and> \<not> ((visited s0)(v := True)) x})"
    by (subst uv, subst card_insert_disjoint) auto
  have vlt: "vertex_index s0 < INT_MAX" "0 \<le> vertex_index s0"
    using i3 cu by (simp_all add: I3_def)
  have v32: "int32 (vertex_index s0 + 1) = vertex_index s0 + 1"
    using vlt by (intro int32_id) simp_all
  have o: "stk ?s = v # stk s0" "stack_top ?s = stack_top s0 + 1"
    "idx ?s = (idx s0)(v := vertex_index s0)" "low ?s = (low s0)(v := vertex_index s0)"
    "ons ?s = (ons s0)(v := True)" "dsc ?s = dsc s0" "scc_set ?s = scc_set s0"
    "leaf ?s = leaf s0" "sz ?s = sz s0" "currentSCC ?s = currentSCC s0"
    "isFirstSCC ?s = isFirstSCC s0" "vertex_index ?s = vertex_index s0 + 1"
    "visited ?s = (visited s0)(v := True)" "closed_set ?s = closed_set s0"
    using vi by (simp_all add: po st tp v32)
  have vnot: "v \<notin> set (stk s0)" "v \<notin> closed_set s0"
    using i2 v nv by (auto simp: I2_def)
  have stkvis: "\<forall>b\<in>set (stk s0). b < n \<and> visited s0 b \<and> b \<noteq> v"
    using i1 i2 vnot by (auto simp: I1_def I2_def)
  have I1': "I1 n ?s"
    unfolding I1_def o
  proof (intro conjI)
    show "- 1 \<le> stack_top s0 + 1" using top by simp
    show "distinct (v # stk s0)" using i1 vnot by (simp add: I1_def)
    show "set (v # stk s0) \<subseteq> {..<n}" using i1 v by (simp add: I1_def)
    show "\<forall>x<n. ((ons s0)(v := True)) x = (x \<in> set (v # stk s0))"
      using i1 by (auto simp: I1_def)
    have "sorted_wrt (\<lambda>a b. idx s0 b < idx s0 a) (stk s0)"
      using i1 by (simp add: I1_def)
    then have "sorted_wrt (\<lambda>a b. ((idx s0)(v := vertex_index s0)) b
        < ((idx s0)(v := vertex_index s0)) a) (stk s0)"
      by (rule sorted_wrt_mono_rel [rotated]) (use stkvis in auto)
    moreover have "\<forall>b\<in>set (stk s0). idx s0 b < vertex_index s0"
      using stkvis i3 by (auto simp: I3_def)
    ultimately show "sorted_wrt (\<lambda>a b. ((idx s0)(v := vertex_index s0)) b
        < ((idx s0)(v := vertex_index s0)) a) (v # stk s0)"
      using i1 stkvis by (auto simp: I1_def)
  qed
  have I2': "I2 n ?s"
    using i2 v vnot unfolding I2_def o by auto
  have I3': "I3 n ?s"
    using i3 cu unfolding I3_def o by auto
  have cv: "{x. x < n \<and> ((visited s0)(v := True)) x} = insert v {x. x < n \<and> visited s0 x}"
    using v by auto
  have "card {x. x < n \<and> ((visited s0)(v := True)) x} = Suc (card {x. x < n \<and> visited s0 x})"
    unfolding cv using nv by (subst card_insert_disjoint) auto
  then have I4': "I4 n ?s"
    using i4 unfolding I4_def o by simp
  have I5': "I5 g n ?s"
    using i5 unfolding I5_def o .
  have I6': "I6 n ?s"
    using i6 unfolding I6_def o by simp
  have inv': "Inv g n ?s"
    using I1' I2' I3' I4' I5' I6' by (simp add: Inv_def)
  have fr: "frame n s0 ?s"
    using nv unfolding frame_def o by auto
  have d0: "done_set g v (nextelement (g ! v) (- 1)) = {}" by (rule done_set_first)
  have li: "LI g n v s0 (nextelement (g ! v) (- 1)) ?s"
    unfolding LI_def d0 o
  proof (intro conjI)
    show "\<exists>T. v # stk s0 = T @ v # stk s0
        \<and> ({} = {} \<longrightarrow> T = [] \<and> ((low s0)(v := vertex_index s0)) v
              = ((idx s0)(v := vertex_index s0)) v)
        \<and> (\<forall>x\<in>set T. elems (g ! x) \<noteq> {} \<and> \<not> visited s0 x)
        \<and> (currentSCC s0 = 0 \<longrightarrow> Jcond g ?s v T (stk s0) {})"
      by (intro exI [of _ "[]"]) (simp add: Jcond_def)
    show "dsc s0 v = {}" using i6 v nv by (simp add: I6_def)
    show "\<forall>x<n. ((visited s0)(v := True)) x \<and> \<not> visited s0 x \<and> x \<noteq> v \<longrightarrow> fin g ?s x"
      by simp
  qed (simp_all add: inv' fr nv)
  have "unvisited n ?s = unvisited n s0 - {v}"
    unfolding unvisited_def o by auto
  with p li show ?thesis by blast
qed

lemma Post_D:
  assumes "Post g n v s0 s'"
  shows "Inv g n s'" "frame n s0 s'" "visited s' v" "idx s' v = vertex_index s0"
    "\<forall>w<n. visited s' w \<and> \<not> visited s0 w \<longrightarrow> fin g s' w"
  using assms unfolding Post_def by blast+

lemma Post_cases:
  assumes "Post g n v s0 s'"
  shows "(stk s' = stk s0 \<and> low s' v = idx s' v)
     \<or> (\<exists>T. stk s' = T @ v # stk s0
           \<and> (\<exists>u\<in>set (stk s0). low s' v = idx s' u)
           \<and> (\<forall>x\<in>set (T @ [v]). elems (g ! x) \<noteq> {} \<and> \<not> visited s0 x)
           \<and> (currentSCC s' = 0 \<longrightarrow>
                (\<forall>x\<in>set (T @ [v]). \<forall>y\<in>elems (g ! x). y \<in> set (stk s0)
                    \<longrightarrow> low s' v \<le> idx s' y)))"
  using assms unfolding Post_def by blast

lemma fin_mono:
  assumes "fin g s x" "frame n s s'" "x < n" "visited s x" "\<forall>y\<in>elems (g ! x). y < n"
  shows "fin g s' x"
  using assms unfolding fin_def frame_def visited_idx by auto

lemma LI_step_call:
  assumes wf: "wf_graph g n"
    and li: "LI g n v s0 (int w') s" and w: "w' \<in> elems (g ! v)" "w' < n" "v < n"
    and nvis: "\<not> visited s w'"
    and post: "Post g n w' (add_descendent v w' s) s2"
  shows "LI g n v s0 (nextelement (g ! v) (int w')) (lower v (low s2 w') s2)"
proof -
  let ?sa = "add_descendent v w' s"
  let ?s' = "lower v (low s2 w') s2"
  let ?D = "done_set g v (int w')"
  note d = LI_D [OF li]
  note pd = Post_D [OF post]
  from LI_T [OF li] obtain T where T: "stk s = T @ v # stk s0"
    "\<forall>x\<in>set T. elems (g ! x) \<noteq> {} \<and> \<not> visited s0 x"
    "currentSCC s = 0 \<longrightarrow> Jcond g s v T (stk s0) ?D"
    by (elim exE conjE)
  have w32: "w' < 32" using w(1) by (rule elems_less)
  have rows: "\<forall>x<n. \<forall>y\<in>elems (g ! x). y < n" using wf by (simp add: wf_graph_def)
  have dn: "done_set g v (nextelement (g ! v) (int w')) = insert w' ?D"
    using w(1) by (rule done_set_next)
  have f02: "frame n s0 s2"
    by (rule frame_trans [OF frame_add_descendent [OF d(2,3) w32] pd(2)])
  have c0: "currentSCC s \<le> currentSCC s2" using pd(2) by (simp add: frame_def)
  have vmono: "visited s2 u" if "u < n" "visited s u" for u
    using frame_visited [OF pd(2), of u] that by simp
  have i1: "I1 n s" and i2: "I2 n s" and i3: "I3 n s" using d(1) by (simp_all add: Inv_def)
  have srt: "sorted_wrt (\<lambda>a b. idx s b < idx s a) (T @ v # stk s0)"
    using i1 T(1) by (simp add: I1_def)
  have lowle: "low s v \<le> idx s v" "idx s v < vertex_index s"
    using i3 d(4) w(3) by (simp_all add: I3_def)
  have stkvis: "\<forall>u\<in>set (stk s). u < n \<and> visited s u"
    using i1 i2 by (auto simp: I1_def I2_def)
  have keep: "idx s2 u = idx s u \<and> low s2 u = low s u \<and> dsc s2 u = dsc ?sa u"
    if "u < n" "visited s u" for u
    using pd(2) that by (simp add: frame_def)
  have keepstk: "idx s2 u = idx s u" if "u \<in> set (stk s)" for u
    using keep stkvis that by blast
  have lowv: "low s2 v = low s v" using keep [OF w(3) d(4)] by simp
  have low': "low ?s' v = min (low s v) (low s2 w')" by (simp add: lowv)
  have idx': "idx ?s' = idx s2" by simp
  have w'notS0: "w' \<notin> set (stk s)" using stkvis nvis by blast
  have finl: "fin g ?s' x = fin g s2 x" for x by (simp add: fin_def)
  from Post_cases [OF post]
  have shape: "\<exists>T'. stk s2 = T' @ v # stk s0
      \<and> (\<forall>x\<in>set T'. elems (g ! x) \<noteq> {} \<and> \<not> visited s0 x)
      \<and> (currentSCC s2 = 0 \<longrightarrow> (\<forall>x\<in>set T'. \<forall>y\<in>elems (g ! x). y \<in> set (stk s0)
            \<longrightarrow> min (low s v) (low s2 w') \<le> idx s2 y))"
  proof (elim disjE exE conjE)
    assume c: "stk s2 = stk ?sa"
    show ?thesis
    proof (intro exI [of _ T] conjI)
      show "stk s2 = T @ v # stk s0" using c T(1) by simp
      show "\<forall>x\<in>set T. elems (g ! x) \<noteq> {} \<and> \<not> visited s0 x" by fact
      show "currentSCC s2 = 0 \<longrightarrow> (\<forall>x\<in>set T. \<forall>y\<in>elems (g ! x). y \<in> set (stk s0)
            \<longrightarrow> min (low s v) (low s2 w') \<le> idx s2 y)"
      proof (intro impI ballI)
        fix x y assume "currentSCC s2 = 0" "x \<in> set T" "y \<in> elems (g ! x)" "y \<in> set (stk s0)"
        with c0 T(3) have "low s v \<le> idx s y" by (auto simp: Jcond_def)
        moreover have "idx s2 y = idx s y"
          using keepstk [of y] \<open>y \<in> set (stk s0)\<close> T(1) by simp
        ultimately show "min (low s v) (low s2 w') \<le> idx s2 y" by simp
      qed
    qed
  next
    fix T2 assume o: "stk s2 = T2 @ w' # stk ?sa"
      and ne: "\<forall>x\<in>set (T2 @ [w']). elems (g ! x) \<noteq> {} \<and> \<not> visited ?sa x"
      and j: "currentSCC s2 = 0 \<longrightarrow> (\<forall>x\<in>set (T2 @ [w']). \<forall>y\<in>elems (g ! x).
                y \<in> set (stk ?sa) \<longrightarrow> low s2 w' \<le> idx s2 y)"
    show ?thesis
    proof (intro exI [of _ "T2 @ w' # T"] conjI)
      show "stk s2 = (T2 @ w' # T) @ v # stk s0" using o T(1) by simp
      have "set (stk s2) \<subseteq> {..<n}" using pd(1) by (simp add: Inv_def I1_def)
      then have "\<forall>x\<in>set (T2 @ [w']). x < n" using o by auto
      moreover have "\<not> visited s0 x" if "x < n" "\<not> visited ?sa x" for x
        using that frame_visited [OF d(2), of x] by auto
      ultimately show "\<forall>x\<in>set (T2 @ w' # T). elems (g ! x) \<noteq> {} \<and> \<not> visited s0 x"
        using ne T(2) by auto
      show "currentSCC s2 = 0 \<longrightarrow> (\<forall>x\<in>set (T2 @ w' # T). \<forall>y\<in>elems (g ! x).
            y \<in> set (stk s0) \<longrightarrow> min (low s v) (low s2 w') \<le> idx s2 y)"
      proof (intro impI ballI)
        fix x y assume a: "currentSCC s2 = 0" "x \<in> set (T2 @ w' # T)" "y \<in> elems (g ! x)"
          "y \<in> set (stk s0)"
        have iy: "idx s2 y = idx s y" using keepstk [of y] a(4) T(1) by simp
        show "min (low s v) (low s2 w') \<le> idx s2 y"
        proof (cases "x \<in> set T")
          case True
          with a c0 T(3) have "low s v \<le> idx s y" by (auto simp: Jcond_def)
          with iy show ?thesis by simp
        next
          case False
          with a(2) have "x \<in> set (T2 @ [w'])" by auto
          moreover have "y \<in> set (stk ?sa)" using a(4) T(1) by simp
          ultimately have "low s2 w' \<le> idx s2 y" using j a(1,3) by blast
          then show ?thesis by simp
        qed
      qed
    qed
  qed
  show ?thesis
    unfolding LI_def dn
  proof (intro conjI)
    show "Inv g n ?s'" using pd(1) by (rule Inv_lower)
    show "frame n s0 ?s'" using f02 d(3) by (rule frame_lower)
    show "\<not> visited s0 v" by fact
    show "visited ?s' v" using vmono [OF w(3) d(4)] by simp
    show "idx ?s' v = vertex_index s0" using keep [OF w(3) d(4)] d(5) by simp
    show "\<exists>T. stk ?s' = T @ v # stk s0
         \<and> (insert w' ?D = {} \<longrightarrow> T = [] \<and> low ?s' v = idx ?s' v)
         \<and> (\<forall>x\<in>set T. elems (g ! x) \<noteq> {} \<and> \<not> visited s0 x)
         \<and> (currentSCC ?s' = 0 \<longrightarrow> Jcond g ?s' v T (stk s0) (insert w' ?D))"
    proof -
      from shape obtain T' where T': "stk s2 = T' @ v # stk s0"
        "\<forall>x\<in>set T'. elems (g ! x) \<noteq> {} \<and> \<not> visited s0 x"
        "currentSCC s2 = 0 \<longrightarrow> (\<forall>x\<in>set T'. \<forall>y\<in>elems (g ! x). y \<in> set (stk s0)
            \<longrightarrow> min (low s v) (low s2 w') \<le> idx s2 y)"
        by (elim exE conjE)
      have "Jcond g ?s' v T' (stk s0) (insert w' ?D)" if z: "currentSCC s2 = 0"
        unfolding Jcond_def low' idx'
      proof (intro conjI ballI impI)
        fix x y assume "x \<in> set T'" "y \<in> elems (g ! x)" "y \<in> set (stk s0)"
        with T'(3) z show "min (low s v) (low s2 w') \<le> idx s2 y" by blast
      next
        fix y assume y: "y \<in> insert w' ?D" "y \<in> set (stk s0)"
        with w'notS0 T(1) have yD: "y \<in> ?D" by auto
        have "currentSCC s = 0" using z c0 by simp
        with T(3) yD y(2) have "low s v \<le> idx s y" by (auto simp: Jcond_def)
        moreover have "idx s2 y = idx s y" using keepstk [of y] y(2) T(1) by simp
        ultimately show "min (low s v) (low s2 w') \<le> idx s2 y" by simp
      qed
      with T'(1,2) show ?thesis
        by (intro exI [of _ T']) simp
    qed
    show "\<forall>x<n. visited ?s' x \<and> \<not> visited s0 x \<and> x \<noteq> v \<longrightarrow> fin g ?s' x"
    proof (intro allI impI)
      fix x assume x: "x < n" "visited ?s' x \<and> \<not> visited s0 x \<and> x \<noteq> v"
      show "fin g ?s' x"
      proof (cases "visited s x")
        case False
        then have "\<not> visited ?sa x" by simp
        with pd(5) x show ?thesis by (simp add: finl)
      next
        case True
        with d(6) x have "fin g s x" by blast
        then have "fin g ?sa x" using x w32 by (simp add: fin_def)
        then have "fin g s2 x"
          using pd(2) x(1) True rows by (intro fin_mono [of g ?sa x n s2]) auto
        then show ?thesis by (simp add: finl)
      qed
    qed
    show "dsc ?s' v = insert w' ?D"
      using keep [OF w(3) d(4)] d(7) w32 by simp
    show "\<forall>y\<in>insert w' ?D. visited ?s' y"
    proof
      fix y assume "y \<in> insert w' ?D"
      then consider "y = w'" | "y \<in> ?D" by blast
      then show "visited ?s' y"
      proof cases
        case 1 then show ?thesis using pd(3) by simp
      next
        case 2
        then have "visited s y" "y < n" using d(8) rows w(3) by (auto simp: done_set_def)
        then show ?thesis using vmono by simp
      qed
    qed
    show "low ?s' v = idx ?s' v \<or> (\<exists>u\<in>set (stk s0). low ?s' v = idx ?s' u)"
    proof (cases "low s2 w' < low s v")
      case False
      then have m: "min (low s v) (low s2 w') = low s v" by simp
      have "idx s2 v = idx s v" using keep [OF w(3) d(4)] by simp
      moreover have "\<forall>u\<in>set (stk s0). idx s2 u = idx s u" using keepstk T(1) by simp
      ultimately show ?thesis using d(9) unfolding low' idx' m by auto
    next
      case True
      then have m: "min (low s v) (low s2 w') = low s2 w'" by simp
      from Post_cases [OF post] show ?thesis
      proof (elim disjE exE conjE bexE)
        assume "low s2 w' = idx s2 w'"
        with pd(4) True lowle show ?thesis by simp
      next
        fix T2 u assume u: "u \<in> set (stk ?sa)" "low s2 w' = idx s2 u"
        then have us: "u \<in> set (stk s)" by simp
        then have iu: "idx s2 u = idx s u" by (rule keepstk)
        with u(2) True lowle have "idx s u < idx s v" by simp
        with srt us T(1) have "u \<in> set (stk s0)"
          using sorted_below [of "idx s" T v "stk s0" u] by simp
        then show ?thesis unfolding low' idx' m using u(2) by blast
      qed
    qed
  qed
qed

text \<open>One round of the popping loop, as a state transformer.\<close>

definition pop_state :: "nat \<Rightarrow> gstate \<Rightarrow> gstate" where
  "pop_state w s =
     (let s1 = s\<lparr>stack_top := stack_top s - 1\<rparr>;
          s2 = s1\<lparr>vinfos := (vinfos s1)(w := (vinfos s1 w)\<lparr>onstack := False\<rparr>)\<rparr>
      in s2\<lparr>sccinfos := (sccinfos s2)(currentSCC s2 :=
                      (sccinfos s2 (currentSCC s2))
                        \<lparr>sccVertices := ADDELEMENT (sccVertices (sccinfos s2 (currentSCC s2))) w\<rparr>)\<rparr>)"

lemma pop_state_obs:
  "idx (pop_state w s) = idx s" "low (pop_state w s) = low s" "dsc (pop_state w s) = dsc s"
  "ons (pop_state w s) = (ons s)(w := False)"
  "w < 32 \<Longrightarrow> scc_set (pop_state w s) = (scc_set s)(currentSCC s := insert w (scc_set s (currentSCC s)))"
  "leaf (pop_state w s) = leaf s" "sz (pop_state w s) = sz s"
  "currentSCC (pop_state w s) = currentSCC s" "isFirstSCC (pop_state w s) = isFirstSCC s"
  "vertex_index (pop_state w s) = vertex_index s"
  "stack_top (pop_state w s) = stack_top s - 1" "stack (pop_state w s) = stack s"
  by (auto simp: pop_state_def obs_defs fun_eq_iff Let_def elems_ADDELEMENT)

lemma pop_scc_unfold:
  assumes "stk s = w # xs" "- 1 \<le> stack_top s"
  shows "pop_scc v k desc s =
     (if w \<noteq> v then pop_scc v (k + 1) (UNION (ADDELEMENT desc w) (descendents (vinfos s w)))
                       (pop_state w s)
      else Some (k + 1, UNION (ADDELEMENT desc w) (descendents (vinfos s w)), pop_state w s))"
proof -
  from stk_pop [OF assms] obtain s1 where
    p: "pop s = Some (w, s1)" and s1: "s1 = s\<lparr>stack_top := stack_top s - 1\<rparr>"
    by blast
  show ?thesis
    by (subst pop_scc.simps) (simp add: p s1 pop_state_def Let_def)
qed

lemma stk_pop_state:
  assumes "stk s = w # xs" "- 1 \<le> stack_top s"
  shows "stk (pop_state w s) = xs" "- 1 \<le> stack_top (pop_state w s)"
proof -
  from stk_pop [OF assms] obtain s1 where
    s1: "stk s1 = xs" "s1 = s\<lparr>stack_top := stack_top s - 1\<rparr>" "- 1 \<le> stack_top s1"
    by blast
  have "stk (pop_state w s) = stk s1"
    by (simp add: stk_def pop_state_obs s1(2))
  with s1 show "stk (pop_state w s) = xs" by simp
  show "- 1 \<le> stack_top (pop_state w s)" using s1 by (simp add: pop_state_obs)
qed

lemma pop_scc_spec:
  assumes "stk s = T @ v # S" "v \<notin> set T" "- 1 \<le> stack_top s" "\<forall>x\<in>set (T @ [v]). x < 32"
  shows "\<exists>s' d. pop_scc v k desc s = Some (k + length T + 1, d, s')
     \<and> elems d = elems desc \<union> set (T @ [v]) \<union> (\<Union>x\<in>set (T @ [v]). dsc s x)
     \<and> stk s' = S \<and> - 1 \<le> stack_top s'
     \<and> idx s' = idx s \<and> low s' = low s \<and> dsc s' = dsc s
     \<and> ons s' = (\<lambda>x. if x \<in> set (T @ [v]) then False else ons s x)
     \<and> scc_set s' = (scc_set s)(currentSCC s := scc_set s (currentSCC s) \<union> set (T @ [v]))
     \<and> leaf s' = leaf s \<and> sz s' = sz s \<and> currentSCC s' = currentSCC s
     \<and> isFirstSCC s' = isFirstSCC s \<and> vertex_index s' = vertex_index s"
  using assms
proof (induction T arbitrary: s k desc)
  case Nil
  then have st: "stk s = v # S" and v32: "v < 32" by simp_all
  have e: "elems (UNION (ADDELEMENT desc v) (descendents (vinfos s v)))
      = elems desc \<union> {v} \<union> dsc s v"
    using v32 by (auto simp: elems_UNION elems_ADDELEMENT dsc_def)
  show ?case
    unfolding pop_scc_unfold [OF st Nil.prems(3)]
    using e stk_pop_state [OF st Nil.prems(3)] v32
    by (auto simp: pop_state_obs fun_eq_iff)
next
  case (Cons w T)
  then have st: "stk s = w # (T @ v # S)" and wv: "w \<noteq> v" and w32: "w < 32" by auto
  let ?s1 = "pop_state w s"
  let ?d1 = "UNION (ADDELEMENT desc w) (descendents (vinfos s w))"
  have e: "elems ?d1 = elems desc \<union> {w} \<union> dsc s w"
    using w32 by (auto simp: elems_UNION elems_ADDELEMENT dsc_def)
  have st1: "stk ?s1 = T @ v # S" "- 1 \<le> stack_top ?s1"
    using stk_pop_state [OF st Cons.prems(3)] by simp_all
  have vT: "v \<notin> set T" "\<forall>x\<in>set (T @ [v]). x < 32" using Cons.prems by auto
  from Cons.IH [OF st1(1) vT(1) st1(2) vT(2), of "k + 1" ?d1]
  obtain s' d where r: "pop_scc v (k + 1) ?d1 ?s1 = Some (k + 1 + length T + 1, d, s')"
    "elems d = elems ?d1 \<union> set (T @ [v]) \<union> (\<Union>x\<in>set (T @ [v]). dsc ?s1 x)"
    "stk s' = S" "- 1 \<le> stack_top s'"
    "idx s' = idx ?s1" "low s' = low ?s1" "dsc s' = dsc ?s1"
    "ons s' = (\<lambda>x. if x \<in> set (T @ [v]) then False else ons ?s1 x)"
    "scc_set s' = (scc_set ?s1)(currentSCC ?s1 := scc_set ?s1 (currentSCC ?s1) \<union> set (T @ [v]))"
    "leaf s' = leaf ?s1" "sz s' = sz ?s1" "currentSCC s' = currentSCC ?s1"
    "isFirstSCC s' = isFirstSCC ?s1" "vertex_index s' = vertex_index ?s1"
    by (elim exE conjE)
  have sc: "scc_set s' = (scc_set s)(currentSCC s := scc_set s (currentSCC s) \<union> set ((w # T) @ [v]))"
    unfolding r(9) using w32 by (auto simp: pop_state_obs fun_eq_iff)
  have on: "ons s' = (\<lambda>x. if x \<in> set ((w # T) @ [v]) then False else ons s x)"
    unfolding r(8) by (auto simp: pop_state_obs fun_eq_iff)
  have el: "elems d = elems desc \<union> set ((w # T) @ [v]) \<union> (\<Union>x\<in>set ((w # T) @ [v]). dsc s x)"
    unfolding r(2) e by (auto simp: pop_state_obs)
  have "pop_scc v k desc s = Some (k + length (w # T) + 1, d, s')"
    unfolding pop_scc_unfold [OF st Cons.prems(3)] using wv r(1) by simp
  with sc on el r(3-7,10-14) show ?case
    by (simp only: pop_state_obs) blast
qed

lemma close_scc_open:
  assumes "low s v \<noteq> idx s v"
  shows "close_scc v s = Some s"
  using assms by (simp add: close_scc_def low_def idx_def)

lemma close_scc_obs:
  assumes eq: "low s v = idx s v" and c: "currentSCC s < MAXN"
    and p: "pop_scc v 0 EMPTYSET s = Some (k, d, s1)" and c1: "currentSCC s1 = currentSCC s"
  shows "\<exists>s'. close_scc v s = Some s'
     \<and> stk s' = stk s1 \<and> stack_top s' = stack_top s1
     \<and> idx s' = idx s1 \<and> low s' = low s1 \<and> ons s' = ons s1 \<and> dsc s' = dsc s1
     \<and> scc_set s' = scc_set s1
     \<and> sz s' = (sz s1)(currentSCC s := k)
     \<and> leaf s' = (leaf s1)(currentSCC s := (leaf s1 (currentSCC s) \<or> isFirstSCC s1
                        \<or> elems d - scc_set s1 (currentSCC s) = {}))
     \<and> isFirstSCC s' = (isFirstSCC s1 \<and> False)
     \<and> currentSCC s' = currentSCC s + 1 \<and> vertex_index s' = vertex_index s1"
proof -
  have sd: "SETDIFF d (sccVertices (sccinfos s1 (currentSCC s))) = 0
      \<longleftrightarrow> elems d - scc_set s1 (currentSCC s) = {}"
    by (simp add: elems_SETDIFF [symmetric] elems_empty_iff scc_set_def)
  have e: "lowlink (vinfos s v) = index (vinfos s v)" using eq by (simp add: low_def idx_def)
  show ?thesis
    unfolding close_scc_def
    using e c p c1 sd
    by (auto simp: Let_def obs_defs fun_eq_iff)
qed

lemma close_Post_open:
  assumes wf: "wf_graph g n" and li: "LI g n v s0 (- 1) s" and v: "v < n"
    and ne: "low s v \<noteq> idx s v"
  shows "close_scc v s = Some s \<and> Post g n v s0 s"
proof -
  note d = LI_D [OF li]
  from LI_T [OF li] obtain T where T: "stk s = T @ v # stk s0"
    "done_set g v (- 1) = {} \<longrightarrow> T = [] \<and> low s v = idx s v"
    "\<forall>x\<in>set T. elems (g ! x) \<noteq> {} \<and> \<not> visited s0 x"
    "currentSCC s = 0 \<longrightarrow> Jcond g s v T (stk s0) (done_set g v (- 1))"
    by (elim exE conjE)
  have D: "done_set g v (- 1) = elems (g ! v)" by (rule done_set_last)
  have finv: "fin g s v" using d(7,8) by (simp add: fin_def D)
  have "Post g n v s0 s"
    unfolding Post_def
  proof (intro conjI disjI2)
    show "\<forall>w<n. visited s w \<and> \<not> visited s0 w \<longrightarrow> fin g s w"
      using d(6) finv by blast
    show "\<exists>T. stk s = T @ v # stk s0
        \<and> (\<exists>u\<in>set (stk s0). low s v = idx s u)
        \<and> (\<forall>x\<in>set (T @ [v]). elems (g ! x) \<noteq> {} \<and> \<not> visited s0 x)
        \<and> (currentSCC s = 0 \<longrightarrow>
              (\<forall>x\<in>set (T @ [v]). \<forall>y\<in>elems (g ! x). y \<in> set (stk s0)
                  \<longrightarrow> low s v \<le> idx s y))"
    proof (intro exI [of _ T] conjI)
      show "stk s = T @ v # stk s0" by fact
      show "\<exists>u\<in>set (stk s0). low s v = idx s u" using d(9) ne by simp
      show "\<forall>x\<in>set (T @ [v]). elems (g ! x) \<noteq> {} \<and> \<not> visited s0 x"
        using T(2,3) ne d(3) D by auto
      show "currentSCC s = 0 \<longrightarrow>
              (\<forall>x\<in>set (T @ [v]). \<forall>y\<in>elems (g ! x). y \<in> set (stk s0)
                  \<longrightarrow> low s v \<le> idx s y)"
        using T(4) by (auto simp: Jcond_def D)
    qed
  qed (use d in simp_all)
  with close_scc_open [OF ne] show ?thesis by simp
qed

lemma card_visited_le: "card {x. x < n \<and> visited s x} \<le> n"
proof -
  have "card {x. x < n \<and> visited s x} \<le> card {..<n}"
    by (intro card_mono) auto
  then show ?thesis by simp
qed

lemma close_Post_closed:
  assumes wf: "wf_graph g n" and li: "LI g n v s0 (- 1) s" and v: "v < n"
    and eq: "low s v = idx s v"
  shows "\<exists>s'. close_scc v s = Some s' \<and> Post g n v s0 s'"
proof -
  note d = LI_D [OF li]
  from LI_T [OF li] obtain T where T: "stk s = T @ v # stk s0"
    "done_set g v (- 1) = {} \<longrightarrow> T = [] \<and> low s v = idx s v"
    "\<forall>x\<in>set T. elems (g ! x) \<noteq> {} \<and> \<not> visited s0 x"
    "currentSCC s = 0 \<longrightarrow> Jcond g s v T (stk s0) (done_set g v (- 1))"
    by (elim exE conjE)
  have D: "done_set g v (- 1) = elems (g ! v)" by (rule done_set_last)
  from d(1) have i1: "I1 n s" and i2: "I2 n s" and i3: "I3 n s" and i4: "I4 n s"
    and i5: "I5 g n s" and i6: "I6 n s"
    by (simp_all add: Inv_def)
  define P where "P = set (T @ [v])"
  define c where "c = currentSCC s"
  define S0 where "S0 = stk s0"
  have n32: "n \<le> 32" using wf by (simp add: wf_graph_def MAXN_def)
  have rows: "\<forall>x<n. \<forall>y\<in>elems (g ! x). y < n" using wf by (simp add: wf_graph_def)
  have st: "stk s = T @ v # S0" using T(1) by (simp add: S0_def)
  have dist: "distinct (T @ v # S0)" using i1 st by (simp add: I1_def)
  have Pn: "\<forall>x\<in>P. x < n" using i1 st by (auto simp: I1_def P_def)
  have P32: "\<forall>x\<in>set (T @ [v]). x < 32" using Pn n32 by (auto simp: P_def)
  have vT: "v \<notin> set T" using dist by simp
  have top: "- 1 \<le> stack_top s" using i1 by (simp add: I1_def)
  have cn: "c < n"
    using i4 card_visited_le [of n s] st by (simp add: I4_def c_def)
  have fresh: "scc_set s c = {}" "\<not> leaf s c"
    using i4 cn by (simp_all add: I4_def c_def)
  from pop_scc_spec [OF T(1) vT top P32, of 0 EMPTYSET]
  obtain s1 dd where p: "pop_scc v 0 EMPTYSET s = Some (0 + length T + 1, dd, s1)"
    and o1: "elems dd = elems EMPTYSET \<union> set (T @ [v]) \<union> (\<Union>x\<in>set (T @ [v]). dsc s x)"
      "stk s1 = stk s0" "- 1 \<le> stack_top s1" "idx s1 = idx s" "low s1 = low s" "dsc s1 = dsc s"
      "ons s1 = (\<lambda>x. if x \<in> set (T @ [v]) then False else ons s x)"
      "scc_set s1 = (scc_set s)(currentSCC s := scc_set s (currentSCC s) \<union> set (T @ [v]))"
      "leaf s1 = leaf s" "sz s1 = sz s" "currentSCC s1 = currentSCC s"
      "isFirstSCC s1 = isFirstSCC s" "vertex_index s1 = vertex_index s"
    by (elim exE conjE)
  have cM: "currentSCC s < MAXN" using cn n32 by (simp add: c_def MAXN_def)
  from close_scc_obs [OF eq cM p o1(11)]
  obtain s' where cl: "close_scc v s = Some s'"
    and o2: "stk s' = stk s1" "stack_top s' = stack_top s1"
      "idx s' = idx s1" "low s' = low s1" "ons s' = ons s1" "dsc s' = dsc s1"
      "scc_set s' = scc_set s1"
      "sz s' = (sz s1)(currentSCC s := 0 + length T + 1)"
      "leaf s' = (leaf s1)(currentSCC s := (leaf s1 (currentSCC s) \<or> isFirstSCC s1
                        \<or> elems dd - scc_set s1 (currentSCC s) = {}))"
      "isFirstSCC s' = (isFirstSCC s1 \<and> False)"
      "currentSCC s' = currentSCC s + 1" "vertex_index s' = vertex_index s1"
    by (elim exE conjE)
  have dscP: "\<forall>x\<in>P. dsc s x = elems (g ! x) \<and> (\<forall>y\<in>elems (g ! x). visited s y \<and> y < n)"
  proof
    fix x assume x: "x \<in> P"
    show "dsc s x = elems (g ! x) \<and> (\<forall>y\<in>elems (g ! x). visited s y \<and> y < n)"
    proof (cases "x = v")
      case True
      then show ?thesis using d(7,8) D rows v by auto
    next
      case False
      with x have xT: "x \<in> set T" by (simp add: P_def)
      then have "visited s x" "x < n" using i1 i2 st by (auto simp: I1_def I2_def)
      with xT T(3) False d(6) have "fin g s x" by blast
      then show ?thesis using rows \<open>x < n\<close> by (auto simp: fin_def)
    qed
  qed
  have dd: "elems dd - P = {} \<longleftrightarrow> no_exit g P"
    unfolding o1(1) P_def [symmetric] no_exit_def using dscP
    by (auto simp: elems_EMPTYSET)
  have first: "no_exit g P" if c0: "c = 0"
    unfolding no_exit_def
  proof (intro ballI subsetI)
    fix x y assume x: "x \<in> P" and y: "y \<in> elems (g ! x)"
    from dscP x y have yv: "visited s y" "y < n" by auto
    have "closed_set s = {}" using c0 by (simp add: closed_set_def c_def)
    with i2 yv have ys: "y \<in> set (T @ v # S0)" by (auto simp: I2_def st)
    show "y \<in> P"
    proof (rule ccontr)
      assume "y \<notin> P"
      with ys have yS: "y \<in> set S0" by (auto simp: P_def)
      from T(4) c0 have J: "Jcond g s v T S0 (elems (g ! v))" by (simp add: c_def D S0_def)
      have "low s v \<le> idx s y"
      proof (cases "x = v")
        case True with J y yS show ?thesis by (auto simp: Jcond_def)
      next
        case False
        with x have "x \<in> set T" by (simp add: P_def)
        with J y yS show ?thesis by (auto simp: Jcond_def)
      qed
      moreover have "idx s y < idx s v"
        using i1 st yS by (auto simp: I1_def sorted_wrt_append)
      ultimately show False using eq by simp
    qed
  qed
  have isf: "isFirstSCC s \<longleftrightarrow> c = 0" using i4 by (simp add: I4_def c_def)
  have sc1: "scc_set s1 (currentSCC s) = P"
    by (simp add: o1 fresh(1) [unfolded c_def] P_def)
  have lfv: "(leaf s c \<or> isFirstSCC s \<or> elems dd - P = {}) = no_exit g P"
    using fresh(2) isf dd first by auto
  have lf: "leaf s' = (leaf s)(c := no_exit g P)"
    using lfv unfolding o2(9) sc1 o1(9,12) by (simp add: c_def)
  have O: "stk s' = S0" "idx s' = idx s" "low s' = low s" "dsc s' = dsc s"
    "ons s' = (\<lambda>x. if x \<in> P then False else ons s x)"
    "scc_set s' = (scc_set s)(c := P)"
    "sz s' = (sz s)(c := length T + 1)"
    "leaf s' = (leaf s)(c := no_exit g P)"
    "isFirstSCC s' = False" "currentSCC s' = c + 1" "vertex_index s' = vertex_index s"
    using lf by (simp_all add: o2 o1 S0_def P_def c_def fresh(1) [unfolded c_def])
  have vis: "visited s' = visited s" by (simp add: fun_eq_iff visited_idx O)
  have cs: "closed_set s' = closed_set s \<union> P"
    by (auto simp: closed_set_def O c_def [symmetric] lessThan_Suc)
  have Pstk: "P \<subseteq> set (stk s)" "P \<inter> set S0 = {}" using dist st by (auto simp: P_def)
  have Pcl: "P \<inter> closed_set s = {}" using i2 Pstk by (auto simp: I2_def)
  have I1': "I1 n s'"
    unfolding I1_def O
  proof (intro conjI)
    show "- 1 \<le> stack_top s'" using o2(2) o1(3) by simp
    show "distinct S0" using dist by simp
    show "set S0 \<subseteq> {..<n}" using i1 st by (auto simp: I1_def)
    show "\<forall>x<n. (if x \<in> P then False else ons s x) = (x \<in> set S0)"
      using i1 st Pstk by (auto simp: I1_def P_def)
    show "sorted_wrt (\<lambda>a b. idx s b < idx s a) S0"
      using i1 st by (simp add: I1_def sorted_wrt_append)
  qed
  have I2': "I2 n s'"
    unfolding I2_def O vis cs
    using i2 st Pstk Pcl Pn by (auto simp: I2_def P_def)
  have I3': "I3 n s'"
    unfolding I3_def O vis using i3 by (simp add: I3_def)
  have cardP: "card P = length T + 1"
    using dist by (simp add: P_def distinct_card)
  have I4': "I4 n s'"
    unfolding I4_def O vis
  proof (intro conjI)
    show "\<forall>i<c + 1. ((scc_set s)(c := P)) i \<noteq> {} \<and> ((sz s)(c := length T + 1)) i
        = card (((scc_set s)(c := P)) i)"
      using i4 cardP by (auto simp: I4_def c_def [symmetric] P_def less_Suc_eq)
    show "\<forall>i<c + 1. \<forall>j<c + 1. i \<noteq> j \<longrightarrow> ((scc_set s)(c := P)) i \<inter> ((scc_set s)(c := P)) j = {}"
    proof (intro allI impI)
      fix i j assume ij: "i < c + 1" "j < c + 1" "i \<noteq> j"
      have a: "P \<inter> scc_set s k = {}" if "k < c" for k
      proof -
        have "scc_set s k \<subseteq> closed_set s"
          using that by (auto simp: closed_set_iff c_def)
        with Pcl show ?thesis by blast
      qed
      show "((scc_set s)(c := P)) i \<inter> ((scc_set s)(c := P)) j = {}"
      proof (cases "i = c")
        case True with ij a [of j] show ?thesis by auto
      next
        case ic: False
        show ?thesis
        proof (cases "j = c")
          case True with ij ic a [of i] show ?thesis by auto
        next
          case False
          with ic ij i4 show ?thesis by (simp add: I4_def c_def [symmetric])
        qed
      qed
    qed
    show "\<forall>i. c + 1 \<le> i \<and> i < n \<longrightarrow> ((scc_set s)(c := P)) i = {}
        \<and> \<not> ((leaf s)(c := no_exit g P)) i"
      using i4 by (simp add: I4_def c_def [symmetric])
    show "c + 1 + length S0 \<le> card {v. v < n \<and> visited s v}"
      using i4 st by (simp add: I4_def c_def [symmetric])
    show "False = (c + 1 = 0)" by simp
  qed
  have I5': "I5 g n s'"
    unfolding I5_def O cs
  proof (intro conjI allI impI)
    fix i assume "i < c + 1"
    then show "((leaf s)(c := no_exit g P)) i = no_exit g (((scc_set s)(c := P)) i)"
      using i5 by (auto simp: I5_def c_def [symmetric] less_Suc_eq)
  next
    assume "0 < c + 1"
    show "((leaf s)(c := no_exit g P)) 0"
    proof (cases "c = 0")
      case True
      with first show ?thesis by simp
    next
      case False
      with i5 show ?thesis by (simp add: I5_def c_def)
    qed
  next
    fix x assume x: "x < n" "elems (g ! x) = {} \<and> x \<in> closed_set s \<union> P"
    show "\<exists>i<c + 1. ((scc_set s)(c := P)) i = {x}"
    proof (cases "x \<in> closed_set s")
      case True
      with i5 x obtain i where "i < c" "scc_set s i = {x}"
        by (auto simp: I5_def c_def)
      then show ?thesis by (intro exI [of _ i]) simp
    next
      case False
      with x have xP: "x \<in> P" by simp
      have "x = v" using xP T(3) x(2) by (auto simp: P_def)
      with x(2) T(2) D have "P = {v}" by (simp add: P_def)
      with \<open>x = v\<close> show ?thesis by (intro exI [of _ c]) simp
    qed
  qed
  have I6': "I6 n s'"
    unfolding I6_def O vis using i6 by (simp add: I6_def)
  have inv': "Inv g n s'"
    using I1' I2' I3' I4' I5' I6' by (simp add: Inv_def)
  have Pnew: "\<forall>x\<in>P. \<not> visited s0 x" using T(3) d(3) by (auto simp: P_def)
  have c0c: "currentSCC s0 \<le> c" using d(2) by (simp add: frame_def c_def)
  have fr: "frame n s0 s'"
    unfolding frame_def O
    using d(2) Pnew c0c by (auto simp: frame_def)
  have finv: "fin g s' x = fin g s x" for x by (simp add: fin_def O vis)
  have "Post g n v s0 s'"
    unfolding Post_def
  proof (intro conjI disjI1)
    show "Inv g n s'" by fact
    show "frame n s0 s'" by fact
    show "visited s' v" using d(4) by (simp add: vis)
    show "idx s' v = vertex_index s0" using d(5) by (simp add: O)
    show "\<forall>w<n. visited s' w \<and> \<not> visited s0 w \<longrightarrow> fin g s' w"
      unfolding finv vis using d(6,7,8) D by (auto simp: fin_def)
    show "stk s' = stk s0" by (simp add: O S0_def)
    show "low s' v = idx s' v" using eq by (simp add: O)
  qed
  with cl show ?thesis by blast
qed

lemma next_ok:
  "nextelement r w = - 1 \<or> (0 \<le> nextelement r w \<and> nat (nextelement r w) \<in> elems r)"
  by (cases rule: nextelement_cases [of r w]) auto

lemma unvisited_same:
  "unvisited n (add_descendent v w s) = unvisited n s"
  "unvisited n (lower v x s) = unvisited n s"
  by (simp_all add: unvisited_def)

lemma strongconnect_correct:
  "wf_graph g n \<Longrightarrow> Inv g n s \<Longrightarrow> v < n \<Longrightarrow> \<not> visited s v \<Longrightarrow> card (unvisited n s) \<le> fuel
     \<Longrightarrow> \<exists>s'. strongconnect fuel g v n s = Some s' \<and> Post g n v s s'"
  and strongconnect_loop_correct:
  "\<forall>s0. wf_graph g n \<longrightarrow> v < n \<longrightarrow> LI g n v s0 w s
     \<longrightarrow> (w = - 1 \<or> (0 \<le> w \<and> nat w \<in> elems (g ! v)))
     \<longrightarrow> card (unvisited n s) \<le> fuel
     \<longrightarrow> (\<exists>s'. strongconnect_loop fuel g v w n s = Some s' \<and> LI g n v s0 (- 1) s')"
proof (induction fuel g v n s and fuel g v w n s rule: strongconnect_strongconnect_loop.induct)
  case (1 fuel g v n s)
  note wf = "1.prems"(1) and inv = "1.prems"(2) and v = "1.prems"(3) and nv = "1.prems"(4)
    and fu = "1.prems"(5)
  have "v \<in> unvisited n s" using v nv by (simp add: unvisited_def)
  then have "card (unvisited n s) \<noteq> 0" by (auto simp: card_eq_0_iff)
  with fu have f0: "fuel \<noteq> 0" by auto
  have lg: "\<not> length g \<le> v" using wf v by (simp add: wf_graph_def)
  from enter_LI [OF wf inv v nv] obtain s1 where
    p: "push v (visit v s) = Some s1"
    and li: "LI g n v s (nextelement (g ! v) (- 1)) (set_onstack v s1)"
    and uv: "unvisited n (set_onstack v s1) = unvisited n s - {v}"
    by blast
  have "card (unvisited n (set_onstack v s1)) = card (unvisited n s) - 1"
    unfolding uv using \<open>v \<in> unvisited n s\<close> by simp
  with fu have fu': "card (unvisited n (set_onstack v s1)) \<le> fuel - 1" by simp
  have "\<not> (fuel = 0 \<or> length g \<le> v)" using f0 lg by simp
  from "1.IH" [OF this p, rule_format, OF wf v li [folded UNDEFINED_def] _ fu']
    next_ok [of "g ! v" "- 1"]
  obtain s2 where l: "strongconnect_loop (fuel - 1) g v (nextelement (g ! v) UNDEFINED) n
        (set_onstack v s1) = Some s2"
    and li2: "LI g n v s (- 1) s2"
    by (auto simp: UNDEFINED_def)
  have "\<exists>s'. close_scc v s2 = Some s' \<and> Post g n v s s'"
  proof (cases "low s2 v = idx s2 v")
    case True
    then show ?thesis by (rule close_Post_closed [OF wf li2 v])
  next
    case False
    then show ?thesis using close_Post_open [OF wf li2 v] by blast
  qed
  then show ?case
    using l by (subst strongconnect.simps) (simp add: f0 lg p)
next
  case (2 fuel g v w n s)
  show ?case
  proof (intro allI impI)
    fix s0
    assume wf: "wf_graph g n" and v: "v < n" and li: "LI g n v s0 w s"
      and wok: "w = - 1 \<or> (0 \<le> w \<and> nat w \<in> elems (g ! v))"
      and fu: "card (unvisited n s) \<le> fuel"
    show "\<exists>s'. strongconnect_loop fuel g v w n s = Some s' \<and> LI g n v s0 (- 1) s'"
    proof (cases "w = - 1")
      case True
      then show ?thesis
        using li by (subst strongconnect_loop.simps) (simp add: UNDEFINED_def)
    next
      case False
      with wok have w0: "0 \<le> w" and we: "nat w \<in> elems (g ! v)" by auto
      let ?w' = "nat w"
      have ww: "int ?w' = w" using w0 by simp
      have li': "LI g n v s0 (int ?w') s" using li ww by simp
      have wn: "?w' < n" using wf v we by (auto simp: wf_graph_def)
      have w32: "?w' < 32" using we by (rule elems_less)
      have gt: "UNDEFINED < w" using w0 by (simp add: UNDEFINED_def)
      let ?sa = "add_descendent v ?w' s"
      let ?nw = "nextelement (g ! v) w"
      note nok = next_ok [of "g ! v" w]
      note d = LI_D [OF li]
      show ?thesis
      proof (cases "visited s ?w'")
        case nvis: False
        then have iu: "index (vinfos ?sa ?w') = UNDEFINED"
          by (auto simp: visited_def add_descendent_def)
        have inva: "Inv g n ?sa" using d(1,4) w32 by (rule Inv_add_descendent)
        have nva: "\<not> visited ?sa ?w'" using nvis by simp
        have fua: "card (unvisited n ?sa) \<le> fuel" using fu by (simp add: unvisited_same)
        from "2.IH"(1) [OF gt refl iu wf inva wn nva fua]
        obtain s2 where sc: "strongconnect fuel g ?w' n ?sa = Some s2"
          and post: "Post g n ?w' ?sa s2"
          by blast
        let ?s3 = "lower v (lowlink (vinfos s2 ?w')) s2"
        have li3: "LI g n v s0 ?nw ?s3"
          using LI_step_call [OF wf li' we wn v nvis post] w0 by (simp add: low_def)
        have "unvisited n s2 \<subseteq> unvisited n ?sa"
          using Post_D(2) [OF post] by (rule unvisited_mono)
        then have "card (unvisited n s2) \<le> card (unvisited n ?sa)"
          by (intro card_mono) simp_all
        with fua have fu3: "card (unvisited n ?s3) \<le> fuel" by (simp add: unvisited_same)
        from "2.IH"(2) [OF gt refl iu sc, rule_format, OF wf v li3 nok fu3]
        obtain s' where "strongconnect_loop fuel g v ?nw n ?s3 = Some s'"
          "LI g n v s0 (- 1) s'"
          by blast
        then show ?thesis
          using gt iu sc
          by (subst strongconnect_loop.simps) (simp add: Let_def)
      next
        case vis: True
        then have iu: "index (vinfos ?sa ?w') \<noteq> UNDEFINED"
          by (auto simp: visited_def add_descendent_def)
        show ?thesis
        proof (cases "ons s ?w'")
          case on: True
          then have os: "onstack (vinfos ?sa ?w')"
            by (auto simp: ons_def add_descendent_def)
          let ?s3 = "lower v (index (vinfos ?sa ?w')) ?sa"
          have ix: "index (vinfos ?sa ?w') = idx s ?w'"
            by (auto simp: idx_def add_descendent_def)
          have li3: "LI g n v s0 ?nw ?s3"
            using LI_step_onstack [OF li' we wn v vis on] w0 unfolding ix by simp
          have fu3: "card (unvisited n ?s3) \<le> fuel" using fu by (simp add: unvisited_same)
          from "2.IH"(3) [OF gt refl iu os, rule_format, OF wf v li3 nok fu3]
          obtain s' where "strongconnect_loop fuel g v ?nw n ?s3 = Some s'"
            "LI g n v s0 (- 1) s'"
            by blast
          then show ?thesis
            using gt iu os
            by (subst strongconnect_loop.simps) (simp add: Let_def)
        next
          case off: False
          then have os: "\<not> onstack (vinfos ?sa ?w')"
            by (auto simp: ons_def add_descendent_def)
          have li3: "LI g n v s0 ?nw ?sa"
            using LI_step_closed [OF li' we wn v vis off] w0 by simp
          have fu3: "card (unvisited n ?sa) \<le> fuel" using fu by (simp add: unvisited_same)
          from "2.IH"(4) [OF gt refl iu os, rule_format, OF wf v li3 nok fu3]
          obtain s' where "strongconnect_loop fuel g v ?nw n ?sa = Some s'"
            "LI g n v s0 (- 1) s'"
            by blast
          then show ?thesis
            using gt iu os
            by (subst strongconnect_loop.simps) (simp add: Let_def)
        qed
      qed
    qed
  qed
qed

lemma fold_reset_cell:
  "fold reset_cell [0..<n] s =
     s\<lparr>vinfos := (\<lambda>i. if i < n then \<lparr>index = UNDEFINED, lowlink = UNDEFINED,
                                       onstack = False, descendents = EMPTYSET\<rparr>
                      else vinfos s i),
       sccinfos := (\<lambda>i. if i < n then \<lparr>sccVertices = EMPTYSET, isLeaf = False, sccSize = 0\<rparr>
                        else sccinfos s i)\<rparr>"
proof (induction n)
  case 0
  show ?case by simp
next
  case (Suc n)
  have "fold reset_cell [0..<Suc n] s = reset_cell n (fold reset_cell [0..<n] s)" by simp
  also have "\<dots> = reset_cell n
     (s\<lparr>vinfos := (\<lambda>i. if i < n then \<lparr>index = UNDEFINED, lowlink = UNDEFINED,
                                       onstack = False, descendents = EMPTYSET\<rparr>
                      else vinfos s i),
       sccinfos := (\<lambda>i. if i < n then \<lparr>sccVertices = EMPTYSET, isLeaf = False, sccSize = 0\<rparr>
                        else sccinfos s i)\<rparr>)"
    by (simp only: Suc)
  also have "\<dots> =
     s\<lparr>vinfos := (\<lambda>i. if i < Suc n then \<lparr>index = UNDEFINED, lowlink = UNDEFINED,
                                       onstack = False, descendents = EMPTYSET\<rparr>
                      else vinfos s i),
       sccinfos := (\<lambda>i. if i < Suc n then \<lparr>sccVertices = EMPTYSET, isLeaf = False, sccSize = 0\<rparr>
                        else sccinfos s i)\<rparr>"
    by (auto simp: reset_cell_def fun_eq_iff less_Suc_eq)
  finally show ?case .
qed

definition tarjan_init :: "nat \<Rightarrow> gstate \<Rightarrow> gstate" where
  "tarjan_init n s =
     fold reset_cell [0..<n] (s\<lparr>stack_top := - 1, currentSCC := 0, isFirstSCC := True\<rparr>)"

lemma tarjan_init_Inv:
  assumes "0 \<le> vertex_index s" "vertex_index s + int n \<le> INT_MAX"
  shows "Inv g n (tarjan_init n s)" "stk (tarjan_init n s) = []"
    "\<forall>v<n. \<not> visited (tarjan_init n s) v" "vertex_index (tarjan_init n s) = vertex_index s"
proof -
  let ?t = "tarjan_init n s"
  have o: "stack_top ?t = - 1" "currentSCC ?t = 0" "isFirstSCC ?t" "stk ?t = []"
    "vertex_index ?t = vertex_index s"
    "\<forall>v<n. idx ?t v = - 1 \<and> \<not> ons ?t v \<and> dsc ?t v = {}"
    "\<forall>i<n. scc_set ?t i = {} \<and> \<not> leaf ?t i"
    by (simp_all add: tarjan_init_def fold_reset_cell obs_defs UNDEFINED_def elems_EMPTYSET)
  have cl: "closed_set ?t = {}" by (simp add: closed_set_def o)
  have vis: "\<forall>v<n. \<not> visited ?t v" using o(6) by (simp add: visited_idx)
  then have e: "{v. v < n \<and> visited ?t v} = {}" by auto
  from vis have "{v. v < n \<and> \<not> visited ?t v} = {..<n}" by auto
  then have u: "card {v. v < n \<and> \<not> visited ?t v} = n" by simp
  show "Inv g n ?t"
    unfolding Inv_def I1_def I2_def I3_def I4_def I5_def I6_def cl e u
    using o vis assms by simp
  show "stk ?t = []" by fact
  show "\<forall>v<n. \<not> visited ?t v" by fact
  show "vertex_index ?t = vertex_index s" by fact
qed

lemma tarjan_visit_correct:
  assumes "wf_graph g n" "Inv g n s" "stk s = []" "set vs \<subseteq> {..<n}"
  shows "\<exists>s'. tarjan_visit g vs n s = Some s' \<and> Inv g n s' \<and> stk s' = []
     \<and> frame n s s' \<and> (\<forall>v\<in>set vs. visited s' v)"
  using assms
proof (induction vs arbitrary: s)
  case Nil
  then show ?case by simp
next
  case (Cons v vs)
  then have v: "v < n" by simp
  have n32: "n \<le> MAXN" using Cons.prems(1) by (simp add: wf_graph_def)
  show ?case
  proof (cases "visited s v")
    case True
    then have i: "index (vinfos s v) \<noteq> UNDEFINED" by (simp add: visited_def)
    from Cons.IH [OF Cons.prems(1,2,3)] Cons.prems(4)
    obtain s' where r: "tarjan_visit g vs n s = Some s'" "Inv g n s'" "stk s' = []"
      "frame n s s'" "\<forall>v\<in>set vs. visited s' v"
      by auto
    have "visited s' v" using frame_visited [OF r(4) v True] .
    with r i show ?thesis by simp
  next
    case False
    then have i: "index (vinfos s v) = UNDEFINED" by (simp add: visited_def)
    have "card (unvisited n s) \<le> card {..<n}"
      by (intro card_mono) (auto simp: unvisited_def)
    with n32 have fu: "card (unvisited n s) \<le> MAXN" by simp
    from strongconnect_correct [OF Cons.prems(1,2) v False fu]
    obtain s1 where sc: "strongconnect MAXN g v n s = Some s1" and post: "Post g n v s s1"
      by blast
    note pd = Post_D [OF post]
    have st1: "stk s1 = []"
      using Post_cases [OF post] Cons.prems(3) by auto
    from Cons.IH [OF Cons.prems(1) pd(1) st1] Cons.prems(4)
    obtain s' where r: "tarjan_visit g vs n s1 = Some s'" "Inv g n s'" "stk s' = []"
      "frame n s1 s'" "\<forall>v\<in>set vs. visited s' v"
      by auto
    have "visited s' v" using frame_visited [OF r(4) v pd(3)] .
    moreover have "frame n s s'" using frame_trans [OF pd(2) r(4)] .
    ultimately show ?thesis using r i sc by simp
  qed
qed

lemma tarjan_correct:
  assumes "wf_graph g n" "0 \<le> vertex_index s" "vertex_index s + int n \<le> INT_MAX"
  shows "\<exists>s'. tarjan g n s = Some s' \<and> Inv g n s' \<and> stk s' = [] \<and> (\<forall>v<n. visited s' v)
     \<and> vertex_index s \<le> vertex_index s'"
proof -
  note ti = tarjan_init_Inv [OF assms(2,3)]
  have sub: "set [0..<n] \<subseteq> {..<n}" by auto
  from tarjan_visit_correct [OF assms(1) ti(1,2) sub]
  obtain s' where r: "tarjan_visit g [0..<n] n (tarjan_init n s) = Some s'" "Inv g n s'"
    "stk s' = []" "frame n (tarjan_init n s) s'" "\<forall>v\<in>set [0..<n]. visited s' v"
    by (elim exE conjE)
  have "vertex_index s \<le> vertex_index s'" using r(4) ti(4) by (simp add: frame_def)
  with r show ?thesis by (simp add: tarjan_def tarjan_init_def)
qed

lemma Inv_partition:
  assumes inv: "Inv g n s" and st: "stk s = []" and all: "\<forall>v<n. visited s v"
  shows "closed_set s = {..<n}"
    and "\<forall>v<n. \<exists>!i. i < currentSCC s \<and> v \<in> scc_set s i"
proof -
  from inv have i2: "I2 n s" and i4: "I4 n s" by (simp_all add: Inv_def)
  show c: "closed_set s = {..<n}"
    using i2 st all by (auto simp: I2_def)
  show "\<forall>v<n. \<exists>!i. i < currentSCC s \<and> v \<in> scc_set s i"
  proof (intro allI impI)
    fix v assume "v < n"
    with c have "v \<in> closed_set s" by simp
    then obtain i where i: "i < currentSCC s" "v \<in> scc_set s i"
      by (auto simp: closed_set_iff)
    show "\<exists>!i. i < currentSCC s \<and> v \<in> scc_set s i"
    proof (intro ex1I [of _ i] conjI)
      fix j assume j: "j < currentSCC s \<and> v \<in> scc_set s j"
      show "j = i"
      proof (rule ccontr)
        assume "j \<noteq> i"
        with i4 i(1) j have "scc_set s j \<inter> scc_set s i = {}" by (simp add: I4_def)
        with i(2) j show False by auto
      qed
    qed (use i in simp_all)
  qed
qed

text \<open>
  As long as the vertex counter does not leave the 32-bit range during the call, that
  is, when fewer than \<open>2^31 - n\<close> vertices have been visited in the run so far:
  for a digraph with \<open>n \<le> MAXN\<close> vertices whose rows name vertices below \<open>n\<close>,
  \<^verbatim>\<open>tarjan\<close> returns, and in the state it leaves every vertex below \<open>n\<close> is in exactly
  one of the recorded sets, the recorded sets are pairwise disjoint, and their union is
  the set of all vertices.
\<close>

lemma tarjan_partition_in_range:
  assumes "wf_graph g n" and "0 \<le> vertex_index s" and "vertex_index s + int n \<le> INT_MAX"
  shows "\<exists>s'. tarjan g n s = Some s'
     \<and> (\<forall>v<n. \<exists>!i. i < currentSCC s' \<and> v \<in> elems (sccVertices (sccinfos s' i)))
     \<and> (\<forall>i<currentSCC s'. \<forall>j<currentSCC s'. i \<noteq> j \<longrightarrow>
           elems (sccVertices (sccinfos s' i)) \<inter> elems (sccVertices (sccinfos s' j)) = {})
     \<and> (\<Union>i<currentSCC s'. elems (sccVertices (sccinfos s' i))) = {..<n}"
proof -
  from tarjan_correct [OF assms] obtain s' where
    t: "tarjan g n s = Some s'" and inv: "Inv g n s'" and st: "stk s' = []"
    and all: "\<forall>v<n. visited s' v"
    by blast
  note p = Inv_partition [OF inv st all]
  have "\<forall>i<currentSCC s'. \<forall>j<currentSCC s'. i \<noteq> j \<longrightarrow> scc_set s' i \<inter> scc_set s' j = {}"
    using inv by (simp add: Inv_def I4_def)
  with t p show ?thesis
    unfolding closed_set_def scc_set_def by blast
qed

text \<open>
  Under the same conditions, in the state \<^verbatim>\<open>tarjan\<close> leaves: a recorded component is
  marked leaf exactly when no edge goes from one of its members to a member of a
  different recorded component; the first component closed (record 0) is marked leaf;
  and a component is marked leaf exactly when the union of the rows of its members,
  minus its own members, is empty.
\<close>

lemma tarjan_leaf_flags_in_range:
  assumes "wf_graph g n" and "0 \<le> vertex_index s" and "vertex_index s + int n \<le> INT_MAX"
  shows "\<exists>s'. tarjan g n s = Some s'
     \<and> (\<forall>i<currentSCC s'. isLeaf (sccinfos s' i) \<longleftrightarrow>
           \<not> (\<exists>v\<in>scc_set s' i. \<exists>w\<in>elems (g ! v). \<exists>j<currentSCC s'. j \<noteq> i \<and> w \<in> scc_set s' j))
     \<and> (0 < currentSCC s' \<longrightarrow> isLeaf (sccinfos s' 0))
     \<and> (\<forall>i<currentSCC s'. isLeaf (sccinfos s' i) \<longleftrightarrow>
           (\<Union>v\<in>scc_set s' i. elems (g ! v)) - scc_set s' i = {})"
proof -
  from tarjan_correct [OF assms] obtain s' where
    t: "tarjan g n s = Some s'" and inv: "Inv g n s'" and st: "stk s' = []"
    and all: "\<forall>v<n. visited s' v"
    by blast
  note p = Inv_partition [OF inv st all]
  from inv have i4: "I4 n s'" and i5: "I5 g n s'" by (simp_all add: Inv_def)
  have rows: "\<forall>x<n. \<forall>y\<in>elems (g ! x). y < n" using assms(1) by (simp add: wf_graph_def)
  have lf: "\<forall>i<currentSCC s'. isLeaf (sccinfos s' i) \<longleftrightarrow> no_exit g (scc_set s' i)"
    using i5 by (simp add: I5_def leaf_def)
  have sub: "scc_set s' i \<subseteq> {..<n}" if "i < currentSCC s'" for i
    using p(1) that by (auto simp: closed_set_def)
  have a: "no_exit g (scc_set s' i) \<longleftrightarrow>
      \<not> (\<exists>v\<in>scc_set s' i. \<exists>w\<in>elems (g ! v). \<exists>j<currentSCC s'. j \<noteq> i \<and> w \<in> scc_set s' j)"
    if i: "i < currentSCC s'" for i
  proof
    assume ne: "no_exit g (scc_set s' i)"
    show "\<not> (\<exists>v\<in>scc_set s' i. \<exists>w\<in>elems (g ! v). \<exists>j<currentSCC s'. j \<noteq> i \<and> w \<in> scc_set s' j)"
    proof
      assume "\<exists>v\<in>scc_set s' i. \<exists>w\<in>elems (g ! v). \<exists>j<currentSCC s'. j \<noteq> i \<and> w \<in> scc_set s' j"
      then obtain v w j where x: "v \<in> scc_set s' i" "w \<in> elems (g ! v)" "j < currentSCC s'"
        "j \<noteq> i" "w \<in> scc_set s' j"
        by blast
      from ne x(1,2) have "w \<in> scc_set s' i" by (auto simp: no_exit_def)
      moreover have "scc_set s' j \<inter> scc_set s' i = {}" using i4 i x(3,4) by (simp add: I4_def)
      ultimately show False using x(5) by auto
    qed
  next
    assume r: "\<not> (\<exists>v\<in>scc_set s' i. \<exists>w\<in>elems (g ! v). \<exists>j<currentSCC s'.
                  j \<noteq> i \<and> w \<in> scc_set s' j)"
    show "no_exit g (scc_set s' i)"
      unfolding no_exit_def
    proof (intro ballI subsetI)
      fix v w assume v: "v \<in> scc_set s' i" and w: "w \<in> elems (g ! v)"
      have "v < n" using sub [OF i] v by auto
      with rows w have "w < n" by blast
      with p(2) obtain j where j: "j < currentSCC s'" "w \<in> scc_set s' j" by blast
      with r v w have "j = i" by blast
      with j show "w \<in> scc_set s' i" by simp
    qed
  qed
  have b: "no_exit g S \<longleftrightarrow> (\<Union>v\<in>S. elems (g ! v)) - S = {}" for S
    by (auto simp: no_exit_def)
  have f0: "0 < currentSCC s' \<longrightarrow> isLeaf (sccinfos s' 0)"
    using i5 unfolding I5_def leaf_def by blast
  show ?thesis
  proof (intro exI [of _ s'] conjI)
    show "tarjan g n s = Some s'" by fact
    show "\<forall>i<currentSCC s'. isLeaf (sccinfos s' i) \<longleftrightarrow>
           \<not> (\<exists>v\<in>scc_set s' i. \<exists>w\<in>elems (g ! v). \<exists>j<currentSCC s'. j \<noteq> i \<and> w \<in> scc_set s' j)"
      using lf a by simp
    show "0 < currentSCC s' \<longrightarrow> isLeaf (sccinfos s' 0)" by fact
    show "\<forall>i<currentSCC s'. isLeaf (sccinfos s' i) \<longleftrightarrow>
           (\<Union>v\<in>scc_set s' i. elems (g ! v)) - scc_set s' i = {}"
      using lf b by simp
  qed
qed

lemma elems_single_1: "elems (ADDELEMENT EMPTYSET (Suc 0)) = {Suc 0}"
  by (simp add: elems_ADDELEMENT elems_EMPTYSET)

lemma nth_single_edge: "single_edge ! 0 = ADDELEMENT EMPTYSET 1" "single_edge ! Suc 0 = EMPTYSET"
  by (simp_all add: single_edge_def)

lemma wf_single_edge: "wf_graph single_edge 2"
proof -
  have "\<forall>w\<in>elems (single_edge ! v). w < 2" if "v < 2" for v
  proof -
    from that have "v = 0 \<or> v = Suc 0" by arith
    then show ?thesis
    proof
      assume "v = 0" then show ?thesis by (simp add: nth_single_edge(1) elems_single_1)
    next
      assume "v = Suc 0" then show ?thesis by (simp add: nth_single_edge(2) elems_EMPTYSET)
    qed
  qed
  moreover have "length single_edge = 2" by (simp add: single_edge_def)
  ultimately show ?thesis
    unfolding wf_graph_def MAXN_def by simp
qed


section \<open>What the decomposer leaves alone\<close>

text \<open>
  The decomposer works on its own tables, its stack and the vertex counter; the
  colouring buffer, the rejection witness, the switches, the counter and the two output
  streams are the same before and after.
\<close>

definition untouched :: "gstate \<Rightarrow> gstate \<Rightarrow> bool" where
  "untouched s t =
     (col t = col s \<and> first t = first s \<and> lastreject t = lastreject s
      \<and> lastrejok t = lastrejok s \<and> groupsize t = groupsize s
      \<and> newgroupsize t = newgroupsize s \<and> fail_level t = fail_level s
      \<and> qswitch t = qswitch s \<and> dswitch t = dswitch s \<and> lswitch t = lswitch s
      \<and> totalCount t = totalCount s \<and> out t = out s \<and> err t = err s
      \<and> passed t = passed s)"

lemma untouched_refl [simp]: "untouched s s"
  by (simp add: untouched_def)

lemma untouched_trans: "untouched s t \<Longrightarrow> untouched t u \<Longrightarrow> untouched s u"
  by (simp add: untouched_def)

lemma untouched_upd [simp]:
  "untouched s (t\<lparr>vinfos := a\<rparr>) = untouched s t"
  "untouched s (t\<lparr>sccinfos := b\<rparr>) = untouched s t"
  "untouched s (t\<lparr>currentSCC := c\<rparr>) = untouched s t"
  "untouched s (t\<lparr>isFirstSCC := d\<rparr>) = untouched s t"
  "untouched s (t\<lparr>vertex_index := e\<rparr>) = untouched s t"
  "untouched s (t\<lparr>stack := f\<rparr>) = untouched s t"
  "untouched s (t\<lparr>stack_top := h\<rparr>) = untouched s t"
  by (simp_all add: untouched_def)

lemma untouched_steps [simp]:
  "untouched s (visit v t) = untouched s t"
  "untouched s (set_onstack v t) = untouched s t"
  "untouched s (add_descendent v w t) = untouched s t"
  "untouched s (lower v x t) = untouched s t"
  "untouched s (reset_cell i t) = untouched s t"
  by (simp_all add: visit_def set_onstack_def add_descendent_def lower_def reset_cell_def)

lemma untouched_steps_left [simp]:
  "untouched (visit v t) s = untouched t s"
  "untouched (set_onstack v t) s = untouched t s"
  "untouched (add_descendent v w t) s = untouched t s"
  "untouched (lower v x t) s = untouched t s"
  by (simp_all add: visit_def set_onstack_def add_descendent_def lower_def untouched_def)

lemma untouched_push: "push v t = Some t' \<Longrightarrow> untouched s t' = untouched s t"
  by (auto simp: push_def split: if_splits)

lemma untouched_pop: "pop t = Some (w, t') \<Longrightarrow> untouched s t' = untouched s t"
  by (auto simp: pop_def split: if_splits)

lemma untouched_pop_scc:
  "pop_scc v k desc t = Some (k', desc', t') \<Longrightarrow> untouched s t' = untouched s t"
proof (induction v k desc t rule: pop_scc.induct)
  case (1 v k desc t)
  from "1.prems" obtain w t1 where p: "pop t = Some (w, t1)"
    by (subst (asm) pop_scc.simps) (auto split: option.splits)
  note u = untouched_pop [OF p, of s]
  show ?case
  proof (cases "w = v")
    case True
    with "1.prems" p u show ?thesis
      by (subst (asm) pop_scc.simps) (auto simp: Let_def)
  next
    case False
    have "untouched s t' = untouched s t1"
      apply (subst "1.IH" [OF p refl refl refl refl refl False])
       prefer 2
       apply simp
      using "1.prems" p False
      apply (subst (asm) pop_scc.simps)
      apply (simp add: Let_def)
      done
    with u
    show ?thesis by simp
  qed
qed

lemma untouched_close_scc: "close_scc v t = Some t' \<Longrightarrow> untouched s t' = untouched s t"
  by (auto simp: close_scc_def Let_def split: if_splits option.splits
           dest: untouched_pop_scc [where s = s])

lemma untouched_strongconnect:
  "(\<forall>t'. strongconnect fuel g v n t = Some t' \<longrightarrow> untouched t t')"
  "(\<forall>t'. strongconnect_loop fuel g v w n t = Some t' \<longrightarrow> untouched t t')"
proof (induction fuel g v n t and fuel g v w n t rule: strongconnect_strongconnect_loop.induct)
  case (1 fuel g v n s)
  show ?case
  proof (intro allI impI)
    fix t' assume a: "strongconnect fuel g v n s = Some t'"
    then have c: "\<not> (fuel = 0 \<or> length g \<le> v)"
      by (subst (asm) strongconnect.simps) (simp split: if_splits)
    from a c obtain s1 s2 where p: "push v (visit v s) = Some s1"
      and l: "strongconnect_loop (fuel - 1) g v (nextelement (g ! v) UNDEFINED) n
                (set_onstack v s1) = Some s2"
      and k: "close_scc v s2 = Some t'"
      by (subst (asm) strongconnect.simps) (auto split: option.splits)
    from "1.IH" [OF c p] l have "untouched (set_onstack v s1) s2" by blast
    moreover have "untouched s (set_onstack v s1)"
      using untouched_push [OF p, of s] by simp
    ultimately have "untouched s s2" by (rule untouched_trans [rotated])
    with untouched_close_scc [OF k, of s] show "untouched s t'" by simp
  qed
next
  case (2 fuel g v w n s)
  show ?case
  proof (intro allI impI)
    fix t' assume a: "strongconnect_loop fuel g v w n s = Some t'"
    show "untouched s t'"
    proof (cases "w > UNDEFINED")
      case False
      with a show ?thesis by (subst (asm) strongconnect_loop.simps) simp
    next
      case gt: True
      let ?s1 = "add_descendent v (nat w) s"
      show ?thesis
      proof (cases "index (vinfos ?s1 (nat w)) = UNDEFINED")
        case iu: True
        from a gt iu obtain s2 where r: "strongconnect fuel g (nat w) n ?s1 = Some s2"
          and l: "strongconnect_loop fuel g v (nextelement (g ! v) w) n
                 (lower v (lowlink (vinfos s2 (nat w))) s2) = Some t'"
          by (subst (asm) strongconnect_loop.simps) (auto simp: Let_def split: option.splits)
        from "2.IH"(1) [OF gt refl iu] r have u1: "untouched ?s1 s2" by blast
        from "2.IH"(2) [OF gt refl iu r] l
        have u2: "untouched (lower v (lowlink (vinfos s2 (nat w))) s2) t'" by blast
        have "untouched s s2" using u1 by simp
        moreover have "untouched s2 t'" using u2 by simp
        ultimately show ?thesis by (rule untouched_trans)
      next
        case ni: False
        show ?thesis
        proof (cases "onstack (vinfos ?s1 (nat w))")
          case True
          with a gt ni have l: "strongconnect_loop fuel g v (nextelement (g ! v) w) n
                 (lower v (index (vinfos ?s1 (nat w))) ?s1) = Some t'"
            by (subst (asm) strongconnect_loop.simps) (simp add: Let_def)
          from "2.IH"(3) [OF gt refl ni True] l
          have "untouched (lower v (index (vinfos ?s1 (nat w))) ?s1) t'" by blast
          then show ?thesis by simp
        next
          case False
          with a gt ni have l: "strongconnect_loop fuel g v (nextelement (g ! v) w) n ?s1 = Some t'"
            by (subst (asm) strongconnect_loop.simps) (simp add: Let_def)
          from "2.IH"(4) [OF gt refl ni False] l
          have "untouched ?s1 t'" by blast
          then show ?thesis by simp
        qed
      qed
    qed
  qed
qed

lemma untouched_tarjan_visit:
  "tarjan_visit g vs n t = Some t' \<Longrightarrow> untouched t t'"
proof (induction vs arbitrary: t)
  case Nil
  then show ?case by simp
next
  case (Cons v vs)
  show ?case
  proof (cases "index (vinfos t v) = UNDEFINED")
    case True
    with Cons.prems obtain t1 where s: "strongconnect MAXN g v n t = Some t1"
      and r: "tarjan_visit g vs n t1 = Some t'"
      by (auto split: option.splits)
    from untouched_strongconnect(1) s have "untouched t t1" by blast
    from this Cons.IH [OF r] show ?thesis by (rule untouched_trans)
  next
    case False
    with Cons.prems Cons.IH show ?thesis by simp
  qed
qed

lemma untouched_fold_reset: "untouched s (fold reset_cell xs t) = untouched s t"
  by (induction xs arbitrary: t) simp_all

lemma untouched_tarjan: "tarjan g n s = Some s' \<Longrightarrow> untouched s s'"
proof -
  assume "tarjan g n s = Some s'"
  then have "untouched (fold reset_cell [0..<n]
          (s\<lparr>stack_top := - 1, currentSCC := 0, isFirstSCC := True\<rparr>)) s'"
    unfolding tarjan_def by (rule untouched_tarjan_visit)
  then show ?thesis by (simp add: untouched_def untouched_fold_reset [unfolded untouched_def])
qed

lemma tarjan_leaves_nonempty:
  assumes "wf_graph g n" and "0 \<le> vertex_index s" and "vertex_index s + int n \<le> INT_MAX"
  shows "\<exists>s'. tarjan g n s = Some s' \<and> leaves_nonempty s' \<and> untouched s s'
     \<and> (0 < n \<longrightarrow> 0 < currentSCC s' \<and> isLeaf (sccinfos s' 0))
     \<and> (\<forall>i<currentSCC s'. elems (sccVertices (sccinfos s' i)) \<subseteq> {..<n})"
proof -
  from tarjan_correct [OF assms] obtain s' where t: "tarjan g n s = Some s'"
    and inv: "Inv g n s'" and st: "stk s' = []" and all: "\<forall>v<n. visited s' v"
    by (elim exE conjE)
  from inv have i4: "I4 n s'" and i5: "I5 g n s'" by (simp_all add: Inv_def)
  note cs = Inv_partition(1) [OF inv st all]
  from i4 have ne: "leaves_nonempty s'"
    unfolding I4_def leaves_nonempty_def scc_set_def by blast
  have pos: "0 < currentSCC s'" if "0 < n"
  proof -
    from cs that have "0 \<in> closed_set s'" by simp
    then obtain i where "i < currentSCC s'" unfolding closed_set_iff by (elim exE conjE)
    then show ?thesis by simp
  qed
  have lf: "isLeaf (sccinfos s' 0)" if "0 < n"
    using i5 pos [OF that] unfolding I5_def leaf_def by blast
  have sub: "elems (sccVertices (sccinfos s' i)) \<subseteq> {..<n}" if "i < currentSCC s'" for i
  proof -
    have "x \<in> closed_set s'" if "x \<in> scc_set s' i" for x
      using \<open>i < currentSCC s'\<close> that unfolding closed_set_iff by blast
    then have "scc_set s' i \<subseteq> closed_set s'" by blast
    with cs show ?thesis by (simp add: scc_set_def)
  qed
  from t ne untouched_tarjan [OF t] pos lf sub show ?thesis
    by (intro exI [of _ s']) simp
qed

text \<open>
  The digraph on \<open>n\<close> vertices without edges. With \<open>n = MAXN = 32\<close> it passes the
  only size check of the program (\<^verbatim>\<open>n > MAXN\<close> in \<^verbatim>\<open>colourdigraph\<close>); every vertex is a
  leaf component, the colouring that gives every vertex colour 1 covers them and is
  its own image under every permutation, and with \<^verbatim>\<open>-d\<close> the filter then builds
  33 rows in a buffer of 32.
\<close>

definition edgeless :: "nat \<Rightarrow> graph" where
  "edgeless n = replicate n EMPTYSET"

lemma wf_edgeless: "n \<le> MAXN \<Longrightarrow> wf_graph (edgeless n) n"
  by (simp add: wf_graph_def edgeless_def elems_EMPTYSET)

theorem filter_overruns_at_MAXN:
  "\<exists>s1. tarjan (edgeless 32) 32 (init_state False True False) = Some s1
     \<and> filter_and_output (edgeless 32) (\<lambda>_. 1) 32 s1 = None"
proof -
  let ?s = "init_state False True False"
  have v: "0 \<le> vertex_index ?s" "vertex_index ?s + int 32 \<le> INT_MAX"
    by (simp_all add: init_state_def INT_MAX_def)
  have wf: "wf_graph (edgeless 32) 32" by (rule wf_edgeless) (simp add: MAXN_def)
  from tarjan_leaves_nonempty [OF wf v] obtain s1 where
    t: "tarjan (edgeless 32) 32 ?s = Some s1" and ne: "leaves_nonempty s1"
    and u: "untouched ?s s1"
    by (elim exE conjE)
  have d: "dswitch s1" using u by (simp add: untouched_def init_state_def)
  have cov: "leaves_covered (\<lambda>_. 1) s1"
    using ne unfolding leaves_covered_def leaves_nonempty_def by blast
  have c: "\<forall>v::nat. (1::int) = 0 \<or> (1::int) = 1" by simp
  from filter_counts_covered_or_overruns [OF ne c, of 32 "edgeless 32"] cov d
  have "filter_and_output (edgeless 32) (\<lambda>_. 1) 32 s1 = None"
    by (simp add: MAXN_def)
  with t show ?thesis by (intro exI [of _ s1]) simp
qed

section \<open>A long run: the vertex counter leaves its range\<close>

text \<open>
  \<^verbatim>\<open>vertex_index\<close> counts the vertices of the whole run, so its value when a digraph is
  read is the number of vertices of all the digraphs read before it, from every input
  file. The digraph on one vertex without a loop, with the oracle's answer for it,
  serves to count: every one of them moves the counter by one.
\<close>

definition one_vertex :: input where
  "one_vertex = ([EMPTYSET], 1, trivial_group 1)"

lemma one_vertex_step:
  assumes "0 \<le> vertex_index s" and "vertex_index s < INT_MAX"
  shows "\<exists>s'. read_loop [one_vertex] s = Some s' \<and> vertex_index s' = vertex_index s + 1
     \<and> qswitch s' = qswitch s \<and> dswitch s' = dswitch s \<and> lswitch s' = lswitch s"
proof -
  have w: "int32 (vertex_index s + 1) = vertex_index s + 1"
    "int32 (1 + vertex_index s) = vertex_index s + 1"
    using assms by (simp_all add: int32_id)
  show ?thesis
    using assms(1)
    apply (simp add: one_vertex_def trivial_group_def tarjan_eval w)
    apply (simp add: colour_eval)
    done
qed


lemma read_loop_append:
  "read_loop (xs @ ys) s = (case read_loop xs s of None \<Rightarrow> None | Some s1 \<Rightarrow> read_loop ys s1)"
  by (induction xs arbitrary: s) (auto split: option.splits)

lemma long_run:
  assumes "0 \<le> vertex_index s" and "vertex_index s + int k \<le> INT_MAX"
  shows "\<exists>s'. read_loop (replicate k one_vertex) s = Some s'
     \<and> vertex_index s' = vertex_index s + int k
     \<and> qswitch s' = qswitch s \<and> dswitch s' = dswitch s \<and> lswitch s' = lswitch s"
  using assms
proof (induction k arbitrary: s)
  case 0
  then show ?case by simp
next
  case (Suc k)
  then have lt: "vertex_index s < INT_MAX" by simp
  from one_vertex_step [OF Suc.prems(1) lt] obtain s1 where
    a: "read_loop [one_vertex] s = Some s1" and b: "vertex_index s1 = vertex_index s + 1"
    and f: "qswitch s1 = qswitch s" "dswitch s1 = dswitch s" "lswitch s1 = lswitch s"
    by (elim exE conjE)
  have "0 \<le> vertex_index s1" "vertex_index s1 + int k \<le> INT_MAX"
    using Suc.prems b by simp_all
  from Suc.IH [OF this] obtain s' where
    c: "read_loop (replicate k one_vertex) s1 = Some s'"
    and d: "vertex_index s' = vertex_index s1 + int k"
    and e: "qswitch s' = qswitch s1" "dswitch s' = dswitch s1" "lswitch s' = lswitch s1"
    by (elim exE conjE)
  have "read_loop (replicate (Suc k) one_vertex) s = read_loop ([one_vertex] @ replicate k one_vertex) s"
    by simp
  also have "\<dots> = Some s'"
    unfolding read_loop_append using a c by simp
  finally show ?case using b d e f by simp
qed

text \<open>
  Three digraphs on two vertices: \<open>single_edge\<close> (above), the cycle \<open>0 \<rightarrow> 1 \<rightarrow> 0\<close>, and
  that cycle with a loop at 0 (row 0 is \<open>{0, 1}\<close>, the word 3; row 1 is \<open>{0}\<close>, the
  word 1). The loop makes the two vertices different, so the last one has no symmetry.
\<close>

definition two_cycle :: graph where
  "two_cycle = [ADDELEMENT EMPTYSET 1, ADDELEMENT EMPTYSET 0]"

definition looped_cycle :: graph where
  "looped_cycle = [3, 1]"

lemma looped_cycle_rows:
  "elems (looped_cycle ! 0) = {0, 1}" "elems (looped_cycle ! 1) = {0}"
proof -
  have a: "(3 :: setword) = ADDELEMENT (ADDELEMENT EMPTYSET 0) 1"
    and b: "(1 :: setword) = ADDELEMENT EMPTYSET 0"
    unfolding ADDELEMENT_def EMPTYSET_def by code_simp+
  have "elems (3 :: setword) = {0, 1}"
    unfolding a by (auto simp: elems_ADDELEMENT elems_EMPTYSET)
  moreover have "elems (1 :: setword) = {0}"
    unfolding b by (simp add: elems_ADDELEMENT elems_EMPTYSET)
  ultimately show "elems (looped_cycle ! 0) = {0, 1}" "elems (looped_cycle ! 1) = {0}"
    by (simp_all add: looped_cycle_def)
qed

lemma int32_over:
  "int32 2147483648 = - 2147483648" "int32 (- 2147483647) = - 2147483647"
  by (simp_all add: int32_def)

lemma nextelement_3: "nextelement 3 (- 1) = 0" "nextelement 3 0 = 1" "nextelement 3 1 = - 1"
  by code_simp+

lemma bits_small:
  "bit (3 :: setword) 0" "bit (3 :: setword) (Suc 0)" "bit (1 :: setword) 0"
  "\<not> bit (1 :: setword) (Suc 0)" "\<not> bit (2 :: setword) 0" "bit (2 :: setword) (Suc 0)"
  "unset_bit 0 (3 :: setword) = 2" "set_bit 0 (2 :: setword) = 3"
  "set_bit (Suc 0) (1 :: setword) = 3" "set_bit 0 (0 :: setword) = 1"
  "set_bit (Suc 0) (0 :: setword) = 2" "set_bit 0 (1 :: setword) = 1"
  "set_bit (Suc 0) (2 :: setword) = 2" "set_bit (Suc 0) (3 :: setword) = 3"
  "set_bit 0 (3 :: setword) = 3"
  "flip_bit 0 (2 :: setword) = 3" "flip_bit (Suc 0) (1 :: setword) = 3"
  "flip_bit 0 (3 :: setword) = 2" "flip_bit (Suc 0) (3 :: setword) = 1"
  "flip_bit 0 (1 :: setword) = 0" "flip_bit (Suc 0) (2 :: setword) = 0"
  "flip_bit 0 (0 :: setword) = 1" "flip_bit (Suc 0) (0 :: setword) = 2"
  "set_bit 2 (1 :: setword) = 5" "set_bit 2 (3 :: setword) = 7" "set_bit 2 (2 :: setword) = 6"
  "set_bit 2 (0 :: setword) = 4"
  "(3 :: setword) OR 1 = 3" "(1 :: setword) OR 3 = 3" "(2 :: setword) OR 1 = 3"
  "(1 :: setword) OR 2 = 3" "(3 :: setword) OR 2 = 3" "(2 :: setword) OR 3 = 3"
  "(3 :: setword) OR 3 = 3"
  "(3 :: setword) AND NOT 3 = 0" "(3 :: setword) AND NOT 2 = 1" "(3 :: setword) AND NOT 1 = 2"
  "(2 :: setword) AND NOT 2 = 0" "(1 :: setword) AND NOT 1 = 0"
  by code_simp+

text \<open>The three digraphs decomposed when the counter stands at \<open>INT_MAX\<close>.\<close>

lemma single_edge_overflow:
  assumes "vertex_index s = INT_MAX"
  shows "\<exists>s'. tarjan single_edge 2 s = Some s' \<and> currentSCC s' = 1
    \<and> sccinfos s' 0 = \<lparr>sccVertices = 2, isLeaf = True, sccSize = 1\<rparr>
    \<and> vinfos s' 0 = \<lparr>index = 2147483647, lowlink = - 2147483648, onstack = True,
                       descendents = 2\<rparr>
    \<and> vinfos s' 1 = \<lparr>index = - 2147483648, lowlink = - 2147483648, onstack = False,
                       descendents = 0\<rparr>
    \<and> stack_top s' = 0 \<and> vertex_index s' = - 2147483647"
  using assms by (simp add: INT_MAX_def single_edge_def upt_2 tarjan_eval int32_over)

lemma two_cycle_overflow:
  assumes "vertex_index s = INT_MAX"
  shows "\<exists>s'. tarjan two_cycle 2 s = Some s' \<and> currentSCC s' = 1
    \<and> sccinfos s' 0 = \<lparr>sccVertices = 2, isLeaf = True, sccSize = 1\<rparr>
    \<and> vertex_index s' = - 2147483647"
  using assms by (simp add: INT_MAX_def two_cycle_def upt_2 tarjan_eval int32_over)

lemma looped_cycle_overflow:
  assumes "vertex_index s = INT_MAX"
  shows "\<exists>s'. tarjan looped_cycle 2 s = Some s' \<and> currentSCC s' = 1
    \<and> sccinfos s' 0 = \<lparr>sccVertices = 2, isLeaf = True, sccSize = 1\<rparr>
    \<and> totalCount s' = totalCount s"
  using assms
  by (simp add: INT_MAX_def looped_cycle_def upt_2 tarjan_eval int32_over nextelement_3 bits_small)

text \<open>The cycles decomposed while the counter stays in range.\<close>

lemma two_cycle_tarjan:
  assumes "0 \<le> vertex_index s" and "vertex_index s + 2 \<le> INT_MAX"
  shows "\<exists>s'. tarjan two_cycle 2 s = Some s' \<and> currentSCC s' = 1
    \<and> sccinfos s' 0 = \<lparr>sccVertices = 3, isLeaf = True, sccSize = 2\<rparr>
    \<and> vertex_index s' = vertex_index s + 2"
proof -
  have w: "int32 (vertex_index s + 1) = vertex_index s + 1"
    "int32 (vertex_index s + 2) = vertex_index s + 2"
    "int32 (1 + vertex_index s) = vertex_index s + 1"
    "int32 (2 + vertex_index s) = vertex_index s + 2"
    using assms by (simp_all add: int32_id)
  show ?thesis
    using assms(1) by (simp add: two_cycle_def upt_2 tarjan_eval w)
qed

lemma looped_cycle_tarjan:
  assumes "0 \<le> vertex_index s" and "vertex_index s + 2 \<le> INT_MAX"
  shows "\<exists>s'. tarjan looped_cycle 2 s = Some s' \<and> currentSCC s' = 1
    \<and> sccinfos s' 0 = \<lparr>sccVertices = 3, isLeaf = True, sccSize = 2\<rparr>
    \<and> totalCount s' = totalCount s"
proof -
  have w: "int32 (vertex_index s + 1) = vertex_index s + 1"
    "int32 (vertex_index s + 2) = vertex_index s + 2"
    "int32 (1 + vertex_index s) = vertex_index s + 1"
    "int32 (2 + vertex_index s) = vertex_index s + 2"
    using assms by (simp_all add: int32_id)
  show ?thesis
    using assms(1) by (simp add: looped_cycle_def upt_2 tarjan_eval w nextelement_3 bits_small)
qed

text \<open>
  The search on the looped cycle, for the two decompositions: with the component
  \<open>{0, 1}\<close> recorded as the leaf three colourings are counted, with \<open>{1}\<close> recorded as
  the leaf only the two that colour vertex 1.
\<close>

lemma looped_cycle_colour:
  assumes "currentSCC s = 1"
    and "sccinfos s 0 = \<lparr>sccVertices = 3, isLeaf = True, sccSize = 2\<rparr>"
  shows "\<exists>s'. colourdigraph looped_cycle 0 0 NOLIMIT 2 2 (trivial_group 2) s = Some s'
    \<and> passed s' = passed s @ [[0, 0], [0, 1], [1, 0], [1, 1]]
    \<and> totalCount s' = totalCount s + 3"
  using assms
  by (simp add: looped_cycle_def trivial_group_def upt_2 colour_eval nextelement_3 bits_small)

lemma looped_cycle_colour_overflow:
  assumes "currentSCC s = 1"
    and "sccinfos s 0 = \<lparr>sccVertices = 2, isLeaf = True, sccSize = 1\<rparr>"
  shows "\<exists>s'. colourdigraph looped_cycle 0 0 NOLIMIT 2 2 (trivial_group 2) s = Some s'
    \<and> passed s' = passed s @ [[0, 0], [0, 1], [1, 0], [1, 1]]
    \<and> totalCount s' = totalCount s + 2"
  using assms
  by (simp add: looped_cycle_def trivial_group_def upt_2 colour_eval nextelement_3 bits_small)

lemma int_nat_INT_MAX: "int (nat INT_MAX) = INT_MAX"
  by (simp add: INT_MAX_def)

lemma vi0: "vertex_index (init_state q d l) = 0"
  by (simp add: init_state_def)

lemma long_run_state:
  "\<exists>s. read_loop (replicate (nat INT_MAX) one_vertex) (init_state q d l) = Some s
     \<and> vertex_index s = INT_MAX"
proof -
  have "0 \<le> vertex_index (init_state q d l)"
    "vertex_index (init_state q d l) + int (nat INT_MAX) \<le> INT_MAX"
    unfolding vi0 int_nat_INT_MAX by simp_all
  from long_run [OF this] obtain s where
    "read_loop (replicate (nat INT_MAX) one_vertex) (init_state q d l) = Some s"
    "vertex_index s = vertex_index (init_state q d l) + int (nat INT_MAX)"
    by (elim exE conjE)
  then show ?thesis unfolding vi0 int_nat_INT_MAX by (intro exI [of _ s]) simp
qed

lemma elems_2: "elems (2 :: setword) = {1}"
proof -
  have "(2 :: setword) = ADDELEMENT EMPTYSET (Suc 0)"
    unfolding ADDELEMENT_def EMPTYSET_def by code_simp
  with elems_single_1 show ?thesis by simp
qed

text \<open>
  Claim C4, where it fails. When the digraph \<open>0 \<rightarrow> 1\<close> is read with the counter at
  \<open>INT_MAX\<close>, vertex 0 gets the index \<open>INT_MAX\<close>, the counter wraps, vertex 1 gets the
  index \<open>- 2147483648\<close> and closes the component \<open>{1}\<close>; the lowlink of vertex 0 then
  drops to \<open>- 2147483648\<close>, below its index, so vertex 0 closes no component: it is in
  no recorded set, and the recorded sets do not cover the vertices.
\<close>

theorem tarjan_drops_vertex_at_INT_MAX:
  assumes "vertex_index s = INT_MAX"
  shows "\<exists>s'. tarjan single_edge 2 s = Some s' \<and> currentSCC s' = 1
     \<and> elems (sccVertices (sccinfos s' 0)) = {1}
     \<and> \<not> (\<exists>i<currentSCC s'. 0 \<in> elems (sccVertices (sccinfos s' i)))
     \<and> (\<Union>i<currentSCC s'. elems (sccVertices (sccinfos s' i))) \<noteq> {..<2}"
proof -
  from single_edge_overflow [OF assms] obtain s' where t: "tarjan single_edge 2 s = Some s'"
    and c: "currentSCC s' = 1"
    and i: "sccinfos s' 0 = \<lparr>sccVertices = 2, isLeaf = True, sccSize = 1\<rparr>"
    by (elim exE conjE)
  have e: "elems (sccVertices (sccinfos s' 0)) = {1}" by (simp add: i elems_2)
  have n: "\<not> (\<exists>i<currentSCC s'. 0 \<in> elems (sccVertices (sccinfos s' i)))"
    using c e by simp
  have "0 \<notin> (\<Union>i<currentSCC s'. elems (sccVertices (sccinfos s' i)))"
    using n by blast
  moreover have "(0::nat) \<in> {..<2}" by simp
  ultimately have u: "(\<Union>i<currentSCC s'. elems (sccVertices (sccinfos s' i))) \<noteq> {..<2}"
    by metis
  from t c e n u show ?thesis by (intro exI [of _ s'] conjI)
qed

theorem tarjan_drops_vertex_after_long_run:
  "\<exists>s s'. read_loop (replicate (nat INT_MAX) one_vertex) (init_state False False False) = Some s
     \<and> tarjan single_edge 2 s = Some s' \<and> currentSCC s' = 1
     \<and> elems (sccVertices (sccinfos s' 0)) = {1}
     \<and> \<not> (\<exists>i<currentSCC s'. 0 \<in> elems (sccVertices (sccinfos s' i)))"
proof -
  from long_run_state [of False False False] obtain s where
    r: "read_loop (replicate (nat INT_MAX) one_vertex) (init_state False False False) = Some s"
    and v: "vertex_index s = INT_MAX"
    by (elim exE conjE)
  from tarjan_drops_vertex_at_INT_MAX [OF v] obtain s' where
    "tarjan single_edge 2 s = Some s'" "currentSCC s' = 1"
    "elems (sccVertices (sccinfos s' 0)) = {1}"
    "\<not> (\<exists>i<currentSCC s'. 0 \<in> elems (sccVertices (sccinfos s' i)))"
    by (elim exE conjE)
  with r show ?thesis by (intro exI [of _ s] exI [of _ s']) simp
qed

text \<open>
  Claim C3, where it fails. When the cycle \<open>0 \<rightarrow> 1 \<rightarrow> 0\<close> is read with the counter at
  \<open>INT_MAX\<close>, vertex 1 gets the index \<open>- 2147483648\<close>, which the index \<open>INT_MAX\<close> of
  vertex 0 on the stack does not lower, so vertex 1 closes the set \<open>{1}\<close> on its own. It
  is the first set closed and is marked leaf, although the edge from 1 to 0 leaves it;
  the component \<open>{0, 1}\<close> is not recorded.
\<close>

theorem leaf_flag_wrong_at_INT_MAX:
  assumes "vertex_index s = INT_MAX"
  shows "\<exists>s'. tarjan two_cycle 2 s = Some s' \<and> currentSCC s' = 1
     \<and> elems (sccVertices (sccinfos s' 0)) = {1} \<and> isLeaf (sccinfos s' 0)
     \<and> 0 \<in> elems (two_cycle ! 1)
     \<and> (\<Union>v\<in>elems (sccVertices (sccinfos s' 0)). elems (two_cycle ! v))
          - elems (sccVertices (sccinfos s' 0)) \<noteq> {}"
proof -
  from two_cycle_overflow [OF assms] obtain s' where t: "tarjan two_cycle 2 s = Some s'"
    and c: "currentSCC s' = 1"
    and i: "sccinfos s' 0 = \<lparr>sccVertices = 2, isLeaf = True, sccSize = 1\<rparr>"
    by (elim exE conjE)
  have e: "elems (sccVertices (sccinfos s' 0)) = {1}" by (simp add: i elems_2)
  have r: "elems (two_cycle ! 1) = {0}"
    by (simp add: two_cycle_def elems_ADDELEMENT elems_EMPTYSET)
  show ?thesis using t c e i r by (intro exI [of _ s']) simp
qed

theorem leaf_flag_wrong_after_long_run:
  "\<exists>s s'. read_loop (replicate (nat INT_MAX) one_vertex) (init_state False False False) = Some s
     \<and> tarjan two_cycle 2 s = Some s' \<and> currentSCC s' = 1
     \<and> elems (sccVertices (sccinfos s' 0)) = {1} \<and> isLeaf (sccinfos s' 0)
     \<and> 0 \<in> elems (two_cycle ! 1)"
proof -
  from long_run_state [of False False False] obtain s where
    r: "read_loop (replicate (nat INT_MAX) one_vertex) (init_state False False False) = Some s"
    and v: "vertex_index s = INT_MAX"
    by (elim exE conjE)
  from leaf_flag_wrong_at_INT_MAX [OF v] obtain s' where
    "tarjan two_cycle 2 s = Some s'" "currentSCC s' = 1"
    "elems (sccVertices (sccinfos s' 0)) = {1}" "isLeaf (sccinfos s' 0)"
    "0 \<in> elems (two_cycle ! 1)"
    by (elim exE conjE)
  with r show ?thesis by (intro exI [of _ s] exI [of _ s']) simp
qed

text \<open>
  Claim C8, where it fails. \<^verbatim>\<open>tarjan\<close> resets the stack pointer, the component counter,
  the first-component flag and the first \<open>n\<close> cells of both tables, and
  \<^verbatim>\<open>colourdigraph\<close> resets the colour buffer and the rejection witness, but nothing
  resets \<^verbatim>\<open>vertex_index\<close>. So the count for a digraph depends on what was read before
  it: the cycle with a loop at 0 gets three colourings counted when the counter is in
  range, and two when it is read with the counter at \<open>INT_MAX\<close>.
\<close>

theorem count_depends_on_earlier_digraphs:
  assumes "vertex_index s = INT_MAX" and "0 \<le> vertex_index t" and "vertex_index t + 2 \<le> INT_MAX"
  shows "\<exists>s' t'. read_loop [(looped_cycle, 2, trivial_group 2)] s = Some s'
     \<and> totalCount s' = totalCount s + 2
     \<and> read_loop [(looped_cycle, 2, trivial_group 2)] t = Some t'
     \<and> totalCount t' = totalCount t + 3"
proof -
  from looped_cycle_overflow [OF assms(1)] obtain s1 where a: "tarjan looped_cycle 2 s = Some s1"
    "currentSCC s1 = 1" "sccinfos s1 0 = \<lparr>sccVertices = 2, isLeaf = True, sccSize = 1\<rparr>"
    "totalCount s1 = totalCount s"
    by (elim exE conjE)
  from looped_cycle_colour_overflow [OF a(2,3)] obtain s' where
    b: "colourdigraph looped_cycle 0 0 NOLIMIT 2 2 (trivial_group 2) s1 = Some s'"
    "totalCount s' = totalCount s1 + 2"
    by (elim exE conjE)
  from looped_cycle_tarjan [OF assms(2,3)] obtain t1 where c: "tarjan looped_cycle 2 t = Some t1"
    "currentSCC t1 = 1" "sccinfos t1 0 = \<lparr>sccVertices = 3, isLeaf = True, sccSize = 2\<rparr>"
    "totalCount t1 = totalCount t"
    by (elim exE conjE)
  from looped_cycle_colour [OF c(2,3)] obtain t' where
    d: "colourdigraph looped_cycle 0 0 NOLIMIT 2 2 (trivial_group 2) t1 = Some t'"
    "totalCount t' = totalCount t1 + 3"
    by (elim exE conjE)
  show ?thesis
    using a b c d by (intro exI [of _ s'] exI [of _ t']) simp
qed

theorem count_depends_on_earlier_digraphs_witness:
  "\<exists>s s' t'. read_loop (replicate (nat INT_MAX) one_vertex) (init_state False False False) = Some s
     \<and> read_loop [(looped_cycle, 2, trivial_group 2)] s = Some s'
     \<and> totalCount s' = totalCount s + 2
     \<and> read_loop [(looped_cycle, 2, trivial_group 2)] (init_state False False False) = Some t'
     \<and> totalCount t' = 3"
proof -
  let ?t = "init_state False False False"
  from long_run_state [of False False False] obtain s where
    r: "read_loop (replicate (nat INT_MAX) one_vertex) ?t = Some s"
    and v: "vertex_index s = INT_MAX"
    by (elim exE conjE)
  have w: "0 \<le> vertex_index ?t" "vertex_index ?t + 2 \<le> INT_MAX"
    by (simp_all add: init_state_def INT_MAX_def)
  from count_depends_on_earlier_digraphs [OF v w] obtain s' t' where
    "read_loop [(looped_cycle, 2, trivial_group 2)] s = Some s'"
    "totalCount s' = totalCount s + 2"
    "read_loop [(looped_cycle, 2, trivial_group 2)] ?t = Some t'"
    "totalCount t' = totalCount ?t + 3"
    by (elim exE conjE)
  moreover have "totalCount ?t = 0" by (simp add: init_state_def)
  ultimately show ?thesis using r by (intro exI [of _ s] exI [of _ s'] exI [of _ t']) simp
qed

section \<open>The counter over one input file\<close>

text \<open>
  What the search leaves alone: the switches and the error stream stay as they are and
  the counter never goes down.
\<close>

definition grows :: "gstate \<Rightarrow> gstate \<Rightarrow> bool" where
  "grows s t =
     (qswitch t = qswitch s \<and> dswitch t = dswitch s \<and> lswitch t = lswitch s
      \<and> err t = err s \<and> totalCount s \<le> totalCount t)"

lemma grows_refl [simp]: "grows s s"
  by (simp add: grows_def)

lemma grows_trans: "grows s t \<Longrightarrow> grows t u \<Longrightarrow> grows s u"
  by (auto simp: grows_def)

lemma obs_eq_grows: "obs_eq s t \<Longrightarrow> grows s t"
  by (simp add: obs_eq_def grows_def)

lemma grows_upd [simp]:
  "grows (s\<lparr>col := c\<rparr>) t = grows s t"
  "grows (s\<lparr>newgroupsize := a\<rparr>) t = grows s t"
  "grows (s\<lparr>passed := b\<rparr>) t = grows s t"
  "grows (s\<lparr>groupsize := d\<rparr>) t = grows s t"
  "grows (s\<lparr>lastrejok := e\<rparr>) t = grows s t"
  "grows (s\<lparr>first := f\<rparr>) t = grows s t"
  by (simp_all add: grows_def)

lemma ismax_obs: "obs_eq s (snd (ismax p n s))"
  using ismax_cases [of s p n] by auto

lemma testmax_obs: "obs_eq s (snd (testmax p n s))"
proof (cases "first s")
  case True
  then show ?thesis by (simp add: testmax_def)
next
  case False
  then show ?thesis
    using ismax_obs [of s p n]
    by (cases "ismax p n s") (auto simp: testmax_def split: bool.splits)
qed

lemma allgroup2_obs: "obs_eq s (snd (allgroup2 ps n s))"
proof (induction ps arbitrary: s)
  case Nil
  then show ?case by simp
next
  case (Cons p ps)
  obtain a s1 where t: "testmax p n s = (a, s1)" by (cases "testmax p n s")
  with testmax_obs [of s p n] have o: "obs_eq s s1" by simp
  show ?case
  proof (cases "a = 0")
    case True
    with t have "allgroup2 (p # ps) n s = allgroup2 ps n s1" by simp
    with Cons.IH [of s1] o show ?thesis by (auto intro: obs_eq_trans)
  next
    case False
    with t o show ?thesis by simp
  qed
qed

lemma fulltest_obs: "obs_eq s (snd (fulltest grp n s))"
proof -
  have "obs_eq (s\<lparr>newgroupsize := 1, first := True\<rparr>)
          (snd (allgroup2 grp n (s\<lparr>newgroupsize := 1, first := True\<rparr>)))"
    by (rule allgroup2_obs)
  then show ?thesis
    by (cases "allgroup2 grp n (s\<lparr>newgroupsize := 1, first := True\<rparr>)")
       (simp add: fulltest_def)
qed

lemma accept_test_obs: "obs_eq s (snd (accept_test grpo n s))"
proof (cases grpo)
  case None
  then show ?thesis by (simp add: accept_test_def)
next
  case (Some grp)
  obtain b s1 where i: "ismax (lastreject s) n s = (b, s1)" by (cases "ismax (lastreject s) n s")
  with ismax_obs [of s "lastreject s" n] have o: "obs_eq s s1" by simp
  have "obs_eq s (snd (fulltest grp n s1))"
    using o fulltest_obs [of s1 grp n] by (rule obs_eq_trans)
  with Some i o fulltest_obs [of s grp n] show ?thesis
    by (cases b) (simp_all add: accept_test_def)
qed

lemma filter_and_output_grows: "filter_and_output g c n s = Some s' \<Longrightarrow> grows s s'"
  by (auto simp: filter_and_output_def grows_def split: option.splits bool.splits if_splits)

lemma trythisone_grows: "trythisone grpo g n s = Some (r, s') \<Longrightarrow> grows s s'"
proof -
  assume a: "trythisone grpo g n s = Some (r, s')"
  obtain b s1 where t: "accept_test grpo n (s\<lparr>newgroupsize := 1\<rparr>) = (b, s1)"
    by (cases "accept_test grpo n (s\<lparr>newgroupsize := 1\<rparr>)")
  with accept_test_obs [of "s\<lparr>newgroupsize := 1\<rparr>" grpo n] have "obs_eq s s1" by simp
  then have g1: "grows s s1" by (rule obs_eq_grows)
  show ?thesis
  proof (cases b)
    case False
    with a t g1 show ?thesis by (simp add: trythisone_def)
  next
    case True
    with a t obtain s2 where
      f: "filter_and_output g (col s1) n (s1\<lparr>passed := passed s1 @ [map (col s1) [0..<n]]\<rparr>) = Some s2"
      and e: "s' = s2"
      by (auto simp: trythisone_def split: option.splits)
    from filter_and_output_grows [OF f] have "grows s1 s2" by simp
    with g1 e show ?thesis by (auto intro: grows_trans)
  qed
qed

lemma scan_grows:
  "(\<forall>r s'. scan level g prev minedges maxedges sofar numcols grpo n s = Some (r, s') \<longrightarrow> grows s s')"
  "(\<forall>r s'. scan_loop k mx level g prev minedges maxedges sofar numcols grpo n s = Some (r, s')
       \<longrightarrow> grows s s')"
proof (induction level g prev minedges maxedges sofar numcols grpo n s
         and k mx level g prev minedges maxedges sofar numcols grpo n s
       rule: scan_scan_loop.induct)
  case (1 level g prev minedges maxedges sofar numcols grpo n s)
  show ?case
  proof (cases "level = n")
    case True
    then show ?thesis
      by (subst scan.simps) (auto dest: trythisone_grows)
  next
    case False
    from "1.IH" [OF False refl refl refl refl refl refl] False show ?thesis
      by (subst scan.simps) (simp add: Let_def)
  qed
next
  case (2 k mx level g prev minedges maxedges sofar numcols grpo n s)
  show ?case
  proof (intro allI impI)
    fix r s' assume a: "scan_loop k mx level g prev minedges maxedges sofar numcols grpo n s = Some (r, s')"
    show "grows s s'"
    proof (cases "k \<le> mx")
      case False
      with a show ?thesis by (subst (asm) scan_loop.simps) simp
    next
      case le: True
      with a have lv: "\<not> MAXN \<le> level"
        by (subst (asm) scan_loop.simps) (simp split: if_splits)
      from a le lv obtain ret s1 where
        sc: "scan (level + 1) g prev minedges maxedges (sofar + k) numcols grpo n
               (s\<lparr>col := (col s)(level := k)\<rparr>) = Some (ret, s1)"
        by (subst (asm) scan_loop.simps) (auto split: option.splits)
      from "2.IH"(1) [OF le lv] sc have g1: "grows s s1" by simp
      show ?thesis
      proof (cases "ret < int level")
        case True
        with a le lv sc have "s' = s1" by (subst (asm) scan_loop.simps) simp
        with g1 show ?thesis by simp
      next
        case False
        with a le lv sc have
          "scan_loop (k + 1) mx level g prev minedges maxedges sofar numcols grpo n s1 = Some (r, s')"
          by (subst (asm) scan_loop.simps) simp
        with "2.IH"(2) [OF le lv sc refl False] have "grows s1 s'" by simp
        with g1 show ?thesis by (rule grows_trans)
      qed
    qed
  qed
qed

lemma colourdigraph_grows:
  "colourdigraph g nfixed minedges maxedges numcols n orc s = Some s' \<Longrightarrow> grows s s'"
  using scan_grows(1)
  by (fastforce simp: colourdigraph_def Let_def split: if_splits)

lemma untouched_grows: "untouched s t \<Longrightarrow> grows s t"
  by (simp add: untouched_def grows_def)

lemma read_loop_grows: "read_loop inputs s = Some s' \<Longrightarrow> grows s s'"
proof (induction inputs arbitrary: s)
  case Nil
  then show ?case by simp
next
  case (Cons x xs)
  obtain g n orc where x: "x = (g, n, orc)" by (cases x)
  from Cons.prems x obtain s1 s2 where t: "tarjan g n s = Some s1"
    and c: "colourdigraph g 0 0 NOLIMIT 2 n orc s1 = Some s2"
    and r: "read_loop xs s2 = Some s'"
    by (auto split: option.splits)
  from untouched_tarjan [OF t] have "grows s s1" by (rule untouched_grows)
  moreover from colourdigraph_grows [OF c] have "grows s1 s2" .
  moreover from Cons.IH [OF r] have "grows s2 s'" .
  ultimately show ?case by (blast intro: grows_trans)
qed

lemma single_edge_colour_keeps:
  assumes "currentSCC s = 2"
    and "sccinfos s 0 = \<lparr>sccVertices = 2, isLeaf = True, sccSize = 1\<rparr>"
    and "sccinfos s 1 = \<lparr>sccVertices = 1, isLeaf = False, sccSize = 1\<rparr>"
  shows "\<exists>s'. colourdigraph single_edge 0 0 NOLIMIT 2 2 (trivial_group 2) s = Some s'
    \<and> totalCount s' = totalCount s + 2 \<and> vertex_index s' = vertex_index s
    \<and> qswitch s' = qswitch s \<and> err s' = err s"
  using assms by (simp add: single_edge_def trivial_group_def upt_2 colour_eval)

lemma single_edge_read:
  assumes "0 \<le> vertex_index s" and "vertex_index s + 2 \<le> INT_MAX"
  shows "\<exists>s'. read_loop [(single_edge, 2, trivial_group 2)] s = Some s'
    \<and> totalCount s' = totalCount s + 2 \<and> vertex_index s' = vertex_index s + 2
    \<and> qswitch s' = qswitch s \<and> err s' = err s"
proof -
  from single_edge_tarjan [OF assms] obtain s1 where
    t: "tarjan single_edge 2 s = Some s1" and
    c: "currentSCC s1 = 2" and
    i0: "sccinfos s1 0 = \<lparr>sccVertices = 2, isLeaf = True, sccSize = 1\<rparr>" and
    i1: "sccinfos s1 1 = \<lparr>sccVertices = 1, isLeaf = False, sccSize = 1\<rparr>" and
    r: "vertex_index s1 = vertex_index s + 2" "qswitch s1 = qswitch s"
       "totalCount s1 = totalCount s" "err s1 = err s"
    by (elim exE conjE)
  from single_edge_colour_keeps [OF c i0 i1] obtain s' where
    k: "colourdigraph single_edge 0 0 NOLIMIT 2 2 (trivial_group 2) s1 = Some s'"
    "totalCount s' = totalCount s1 + 2" "vertex_index s' = vertex_index s1"
    "qswitch s' = qswitch s1" "err s' = err s1"
    by (elim exE conjE)
  with t r show ?thesis by (intro exI [of _ s']) simp
qed

text \<open>
  A file that holds the digraph \<open>0 \<rightarrow> 1\<close> twice. After the first record the counter
  is 2; the second record starts from that value and leaves 4; the one number
  printed for the file is 4.
\<close>

lemma single_edge_twice:
  "\<exists>s1 s2. read_loop [(single_edge, 2, trivial_group 2)] (init_state False d l) = Some s1
     \<and> totalCount s1 = 2
     \<and> read_loop [(single_edge, 2, trivial_group 2)] s1 = Some s2
     \<and> totalCount s2 = 4 \<and> err s2 = [] \<and> \<not> qswitch s2
     \<and> read_loop [(single_edge, 2, trivial_group 2), (single_edge, 2, trivial_group 2)]
          (init_state False d l) = Some s2"
proof -
  let ?i = "init_state False d l"
  have v: "0 \<le> vertex_index ?i" "vertex_index ?i + 2 \<le> INT_MAX"
    by (simp_all add: init_state_def INT_MAX_def)
  from single_edge_read [OF v] obtain s1 where
    a: "read_loop [(single_edge, 2, trivial_group 2)] ?i = Some s1"
    "totalCount s1 = totalCount ?i + 2" "vertex_index s1 = vertex_index ?i + 2"
    "qswitch s1 = qswitch ?i" "err s1 = err ?i"
    by (elim exE conjE)
  have v1: "0 \<le> vertex_index s1" "vertex_index s1 + 2 \<le> INT_MAX"
    using a(3) by (simp_all add: init_state_def INT_MAX_def)
  from single_edge_read [OF v1] obtain s2 where
    b: "read_loop [(single_edge, 2, trivial_group 2)] s1 = Some s2"
    "totalCount s2 = totalCount s1 + 2" "qswitch s2 = qswitch s1" "err s2 = err s1"
    by (elim exE conjE)
  have "read_loop ([(single_edge, 2, trivial_group 2)] @ [(single_edge, 2, trivial_group 2)]) ?i
      = Some s2"
    unfolding read_loop_append using a(1) b(1) by simp
  then have c: "read_loop [(single_edge, 2, trivial_group 2), (single_edge, 2, trivial_group 2)] ?i
      = Some s2"
    by simp
  have i: "totalCount ?i = 0" "err ?i = []" "\<not> qswitch ?i" by (simp_all add: init_state_def)
  show ?thesis
    using a b c i by (intro exI [of _ s1] exI [of _ s2]) simp
qed

theorem counter_not_reset_between_digraphs:
  "map_option totalCount
     (read_loop [(single_edge, 2, trivial_group 2)] (init_state False False False)) = Some 2
   \<and> map_option totalCount
       (read_loop [(single_edge, 2, trivial_group 2), (single_edge, 2, trivial_group 2)]
          (init_state False False False)) = Some 4
   \<and> map_option err
       (main_loop [Some [(single_edge, 2, trivial_group 2), (single_edge, 2, trivial_group 2)]]
          (init_state False False False)) = Some [4]"
proof -
  from single_edge_twice [of False False] obtain s1 s2 where
    a: "read_loop [(single_edge, 2, trivial_group 2)] (init_state False False False) = Some s1"
    "totalCount s1 = 2" "totalCount s2 = 4" "err s2 = []" "\<not> qswitch s2"
    "read_loop [(single_edge, 2, trivial_group 2), (single_edge, 2, trivial_group 2)]
          (init_state False False False) = Some s2"
    by (elim exE conjE)
  then show ?thesis by (simp add: report_def)
qed

text \<open>
  Claim C5, as the program has it. The counter is not reset between the digraphs of an
  input file: wherever the file is cut in two, the second part starts from the state
  the first part leaves, nothing has been printed by then, and the counter has only
  grown. After the last digraph of the file the counter is printed (unless \<^verbatim>\<open>-q\<close>) and
  set to zero, and the next file starts from there.
\<close>

theorem counter_reported_per_file:
  assumes "read_loop inputs s = Some s1"
  shows "main_loop (Some inputs # files) s = main_loop files (report s1)
     \<and> totalCount (report s1) = 0
     \<and> err (report s1) = (if qswitch s then err s else err s @ [totalCount s1])
     \<and> (\<forall>xs ys. inputs = xs @ ys \<longrightarrow>
          (\<exists>sm. read_loop xs s = Some sm \<and> read_loop ys sm = Some s1 \<and> err sm = err s
             \<and> totalCount s \<le> totalCount sm \<and> totalCount sm \<le> totalCount s1))"
proof (intro conjI allI impI)
  show "main_loop (Some inputs # files) s = main_loop files (report s1)"
    using assms by simp
  show "totalCount (report s1) = 0" by (simp add: report_def)
  from read_loop_grows [OF assms] have g: "qswitch s1 = qswitch s" "err s1 = err s"
    by (simp_all add: grows_def)
  then show "err (report s1) = (if qswitch s then err s else err s @ [totalCount s1])"
    by (simp add: report_def)
next
  fix xs ys assume i: "inputs = xs @ ys"
  with assms have "(case read_loop xs s of None \<Rightarrow> None | Some sm \<Rightarrow> read_loop ys sm) = Some s1"
    by (simp add: read_loop_append)
  then obtain sm where a: "read_loop xs s = Some sm" and b: "read_loop ys sm = Some s1"
    by (cases "read_loop xs s") simp_all
  from read_loop_grows [OF a] read_loop_grows [OF b] a b
  show "\<exists>sm. read_loop xs s = Some sm \<and> read_loop ys sm = Some s1 \<and> err sm = err s
             \<and> totalCount s \<le> totalCount sm \<and> totalCount sm \<le> totalCount s1"
    by (intro exI [of _ sm]) (simp add: grows_def)
qed

theorem counter_reported_per_file_witness:
  "\<exists>s1 s2. read_loop [(single_edge, 2, trivial_group 2)] (init_state False False False) = Some s1
     \<and> totalCount s1 = 2
     \<and> read_loop [(single_edge, 2, trivial_group 2)] s1 = Some s2
     \<and> main_loop [Some [(single_edge, 2, trivial_group 2), (single_edge, 2, trivial_group 2)]]
          (init_state False False False) = Some (report s2)
     \<and> err (report s2) = [4] \<and> totalCount (report s2) = 0"
proof -
  let ?i = "init_state False False False"
  let ?e = "(single_edge, 2, trivial_group 2)"
  from single_edge_twice [of False False] obtain s1 s2 where
    a: "read_loop [?e] ?i = Some s1" "totalCount s1 = 2" "read_loop [?e] s1 = Some s2"
    "totalCount s2 = 4" "read_loop [?e, ?e] ?i = Some s2"
    by (elim exE conjE)
  note t = counter_reported_per_file [OF a(5), of "[]"]
  have i: "\<not> qswitch ?i" "err ?i = []" by (simp_all add: init_state_def)
  from t have "main_loop [Some [?e, ?e]] ?i = Some (report s2)" by simp
  moreover from t i a(4) have "err (report s2) = [4]" by simp
  moreover from t have "totalCount (report s2) = 0" by simp
  ultimately show ?thesis using a(1,2,3) by (intro exI [of _ s1] exI [of _ s2]) simp
qed

section \<open>The extended digraph decomposed again\<close>

lemma wf_extended_digraph:
  assumes "wf_graph g n" "n < MAXN"
  shows "wf_graph (extended_digraph g c n) (n + 1)"
proof -
  note r = extended_digraph_rows [OF assms(2), of g c]
  have "\<forall>w\<in>elems (extended_digraph g c n ! v). w < n + 1" if "v < n + 1" for v
  proof (cases "v < n")
    case True
    with assms(1) have "\<forall>w\<in>elems (g ! v). w < n" by (simp add: wf_graph_def)
    with r(2) True show ?thesis by auto
  next
    case False
    with that have "v = n" by simp
    with r(3) show ?thesis by simp
  qed
  with r(1) assms(2) show ?thesis
    unfolding wf_graph_def by simp
qed

lemma tarjan_sink:
  assumes wf: "wf_graph g n" and vi: "0 \<le> vertex_index s" "vertex_index s + int n \<le> INT_MAX"
    and v: "v < n" and e: "elems (g ! v) = {}"
  shows "\<exists>s'. tarjan g n s = Some s'
     \<and> (\<exists>i<currentSCC s'. elems (sccVertices (sccinfos s' i)) = {v} \<and> isLeaf (sccinfos s' i))
     \<and> (\<forall>j<currentSCC s'. v \<in> elems (sccVertices (sccinfos s' j))
            \<longrightarrow> elems (sccVertices (sccinfos s' j)) = {v})"
proof -
  from tarjan_correct [OF wf vi] obtain s' where
    t: "tarjan g n s = Some s'" and inv: "Inv g n s'" and st: "stk s' = []"
    and all: "\<forall>v<n. visited s' v"
    by (elim exE conjE)
  from Inv_partition(1) [OF inv st all] v have c: "v \<in> closed_set s'" by simp
  from inv have i5: "I5 g n s'" and i4: "I4 n s'" by (simp_all add: Inv_def)
  from i5 v e c obtain i where i: "i < currentSCC s'" "scc_set s' i = {v}"
    unfolding I5_def by blast
  from i5 i(1) have "leaf s' i \<longleftrightarrow> no_exit g (scc_set s' i)"
    unfolding I5_def by blast
  moreover have "no_exit g {v}" using e by (simp add: no_exit_def)
  ultimately have lf: "leaf s' i" using i(2) by simp
  have one: "scc_set s' j = {v}" if "j < currentSCC s'" "v \<in> scc_set s' j" for j
  proof (cases "j = i")
    case True
    with i(2) show ?thesis by simp
  next
    case False
    with i4 i(1) that(1) have "scc_set s' j \<inter> scc_set s' i = {}" by (simp add: I4_def)
    with that(2) i(2) show ?thesis by auto
  qed
  have a: "\<exists>i<currentSCC s'. elems (sccVertices (sccinfos s' i)) = {v} \<and> isLeaf (sccinfos s' i)"
    using i lf by (auto simp: leaf_def scc_set_def)
  have b: "\<forall>j<currentSCC s'. v \<in> elems (sccVertices (sccinfos s' j))
            \<longrightarrow> elems (sccVertices (sccinfos s' j)) = {v}"
    using one by (simp add: scc_set_def)
  from t a b show ?thesis by (intro exI [of _ s'] conjI)
qed

lemma filter_counted_covered:
  assumes "leaves_nonempty s" and "filter_and_output g c n s = Some s'"
    and "totalCount s' = totalCount s + 1"
  shows "\<forall>i<currentSCC s. isLeaf (sccinfos s i) \<longrightarrow>
           (\<exists>v\<in>elems (sccVertices (sccinfos s i)). c v \<noteq> 0)"
proof -
  define P where "P = (\<forall>i<currentSCC s. isLeaf (sccinfos s i) \<longrightarrow>
             (\<exists>v\<in>elems (sccVertices (sccinfos s i)). c v \<noteq> 0))"
  have "leaves_coloured 0 c s = Some (\<forall>i<currentSCC s. 0 \<le> i \<longrightarrow> isLeaf (sccinfos s i) \<longrightarrow>
             (\<exists>v\<in>elems (sccVertices (sccinfos s i)). c v \<noteq> 0))"
    using leaves_coloured_spec [of s 0 c] assms(1) unfolding leaves_nonempty_def by simp
  then have l: "leaves_coloured 0 c s = Some P" by (simp add: P_def)
  have "P"
  proof (rule ccontr)
    assume "\<not> P"
    with l assms(2) have "s' = s" by (simp add: filter_and_output_def)
    with assms(3) show False by simp
  qed
  then show ?thesis by (simp add: P_def)
qed

text \<open>
  The digraph without vertices, read with \<^verbatim>\<open>-d\<close>: its empty colouring is counted and
  the extended digraph is written. It is the one new vertex 0 with an empty row, so no
  edge enters the new vertex.
\<close>

theorem empty_extension_no_incoming:
  "map_option out (read_loop [([], 0, trivial_group 0)] (init_state False True False))
     = Some [([EMPTYSET], 1)]
   \<and> map_option totalCount (read_loop [([], 0, trivial_group 0)] (init_state False True False))
     = Some 1
   \<and> 0 \<notin> elems ([EMPTYSET] ! 0)"
  by (simp add: tarjan_def colour_eval init_state_def trivial_group_def
        elems_EMPTYSET [unfolded EMPTYSET_def])

text \<open>
  Claim C6, for a digraph with at least one vertex. Let \<open>g\<close> be a digraph with
  \<open>0 < n < MAXN\<close> vertices, decomposed by \<^verbatim>\<open>tarjan\<close>, and \<open>c\<close> a colouring that
  \<^verbatim>\<open>filter_and_output\<close> counts; the vertex counter stays in its range while \<open>g\<close> and the
  extended digraph are decomposed. Then \<^verbatim>\<open>tarjan\<close>, run on the extended digraph,
  returns and records the set \<open>{n}\<close>, marked leaf, and \<open>{n}\<close> is the only recorded set
  that holds \<open>n\<close>; the row of \<open>n\<close> in the extended digraph is empty, and some vertex
  below \<open>n\<close> has an edge to \<open>n\<close>.
\<close>

theorem extended_digraph_sink:
  assumes "wf_graph g n" and "0 < n" and "n < MAXN"
    and "0 \<le> vertex_index s" and "vertex_index s + int n \<le> INT_MAX"
    and "tarjan g n s = Some s1"
    and "filter_and_output g c n s1 = Some s2" and "totalCount s2 = totalCount s1 + 1"
    and "0 \<le> vertex_index t" and "vertex_index t + int (n + 1) \<le> INT_MAX"
  shows "\<exists>t'. tarjan (extended_digraph g c n) (n + 1) t = Some t'
     \<and> (\<exists>i<currentSCC t'. elems (sccVertices (sccinfos t' i)) = {n} \<and> isLeaf (sccinfos t' i))
     \<and> (\<forall>j<currentSCC t'. n \<in> elems (sccVertices (sccinfos t' j))
            \<longrightarrow> elems (sccVertices (sccinfos t' j)) = {n})
     \<and> elems (extended_digraph g c n ! n) = {}
     \<and> (\<exists>v<n. n \<in> elems (extended_digraph g c n ! v))"
proof -
  note r = extended_digraph_rows [OF assms(3), of g c]
  from tarjan_leaves_nonempty [OF assms(1,4,5)] assms(6,2) have
    ne: "leaves_nonempty s1" and pos: "0 < currentSCC s1" and lf: "isLeaf (sccinfos s1 0)"
    and sub: "\<forall>i<currentSCC s1. elems (sccVertices (sccinfos s1 i)) \<subseteq> {..<n}"
    by auto
  from filter_counted_covered [OF ne assms(7,8)] pos lf
  obtain v where v: "v \<in> elems (sccVertices (sccinfos s1 0))" "c v \<noteq> 0" by blast
  from sub pos v(1) have vn: "v < n" by blast
  with r(2) v(2) have "n \<in> elems (extended_digraph g c n ! v)" by simp
  with vn have inc: "\<exists>v<n. n \<in> elems (extended_digraph g c n ! v)" by blast
  have "n < n + 1" by simp
  from tarjan_sink [OF wf_extended_digraph [OF assms(1,3)] assms(9,10) this r(3)]
  obtain t' where "tarjan (extended_digraph g c n) (n + 1) t = Some t'"
    "\<exists>i<currentSCC t'. elems (sccVertices (sccinfos t' i)) = {n} \<and> isLeaf (sccinfos t' i)"
    "\<forall>j<currentSCC t'. n \<in> elems (sccVertices (sccinfos t' j))
            \<longrightarrow> elems (sccVertices (sccinfos t' j)) = {n}"
    by blast
  with r(3) inc show ?thesis by (intro exI [of _ t'] conjI)
qed

theorem extended_digraph_sink_witness:
  "\<exists>t'. tarjan (extended_digraph single_edge (\<lambda>v. if v = 1 then 1 else 0) 2) 3
            (init_state False True False) = Some t'
     \<and> (\<exists>i<currentSCC t'. elems (sccVertices (sccinfos t' i)) = {2} \<and> isLeaf (sccinfos t' i))
     \<and> (\<exists>v<2. 2 \<in> elems (extended_digraph single_edge (\<lambda>v. if v = 1 then 1 else 0) 2 ! v))"
proof -
  let ?i = "init_state False True False"
  let ?c = "\<lambda>v::nat. if v = 1 then 1 else (0::int)"
  have v: "0 \<le> vertex_index ?i" "vertex_index ?i + 2 \<le> INT_MAX"
    "vertex_index ?i + int 2 \<le> INT_MAX" "vertex_index ?i + int (2 + 1) \<le> INT_MAX"
    by (simp_all add: init_state_def INT_MAX_def)
  from single_edge_tarjan [OF v(1,2)] obtain s1 where
    t: "tarjan single_edge 2 ?i = Some s1" and
    c: "currentSCC s1 = 2" and
    i0: "sccinfos s1 0 = \<lparr>sccVertices = 2, isLeaf = True, sccSize = 1\<rparr>" and
    i1: "sccinfos s1 1 = \<lparr>sccVertices = 1, isLeaf = False, sccSize = 1\<rparr>"
    by (elim exE conjE)
  from single_edge_filter [OF c i0 i1, of ?c]
  obtain s2 where f: "filter_and_output single_edge ?c 2 s1 = Some s2"
    and n: "totalCount s2 = totalCount s1 + 1"
    by auto
  have m: "(2::nat) < MAXN" "(0::nat) < 2" by (simp_all add: MAXN_def)
  from extended_digraph_sink [OF wf_single_edge m(2,1) v(1,3) t f n v(1,4)]
  obtain t' where "tarjan (extended_digraph single_edge ?c 2) (2 + 1) ?i = Some t'"
    "\<exists>i<currentSCC t'. elems (sccVertices (sccinfos t' i)) = {2} \<and> isLeaf (sccinfos t' i)"
    "\<exists>v<2. 2 \<in> elems (extended_digraph single_edge ?c 2 ! v)"
    by blast
  then show ?thesis by (intro exI [of _ t']) simp
qed

end
